theory Spec2Isabelle
  imports Main
begin

section \<open>Signed-URL resolution of \<open>src/storage.ts\<close>\<close>

text \<open>
  The development embeds the signed-URL part of \<open>storage.ts\<close>: the locator parser
  \<open>parseR2Url\<close>, the single-key resolver \<open>getSignedDownloadUrl\<close> /
  \<open>getAuthenticatedUrl\<close>, the attachment variant
  \<open>getSignedDownloadUrlForAttachment\<close> and the batch resolver
  \<open>getAuthenticatedUrls\<close>.

  Conventions of the embedding.
  \<^item> Instants and durations are integers (milliseconds, as \<open>Date.now()\<close> yields them).
    One call runs at one instant \<open>now\<close>: every \<open>Date.now()\<close> read inside a call
    returns the parameter \<open>now\<close>. The single-key resolver is given a second time
    (\<open>getSignedDownloadUrlAt\<close>) with the clock read that follows the presigner call as
    an instant \<open>later\<close> of its own.
  \<^item> A JavaScript string is a \<open>string\<close>; characters are the 8-bit \<open>char\<close>.
  \<^item> The module-level \<open>Map\<close> \<open>signedUrlCache\<close>, the contents of the Redis store and
    a trace of every call made to a collaborator form the \<open>state\<close>, which is passed
    through each function and returned.
  \<^item> The collaborators that are not part of the repository (the S3 presigner and the
    Upstash Redis client) are parameters, collected in the record \<open>env\<close>: what the
    presigner returns for a key at an instant (\<open>None\<close> when it rejects), which Redis
    commands reject, and the time the bulk read takes to answer.
  \<^item> A rejected promise or a \<open>throw\<close> is the value \<open>Inl e\<close>.
\<close>

subsection \<open>Constants\<close>

definition SIGNED_URL_CACHE_DURATION :: int where
  "SIGNED_URL_CACHE_DURATION = 50 * 60 * 1000"

definition SIGNED_URL_EXPIRY :: int where
  "SIGNED_URL_EXPIRY = 3600"

definition SAFETY_BUFFER_MS :: int where
  "SAFETY_BUFFER_MS = 5 * 60 * 1000"

text \<open>The literal of \<open>setTimeout(() => resolve(null), 2000)\<close> in the batch resolver.\<close>

definition MGET_TIMEOUT_MS :: nat where
  "MGET_TIMEOUT_MS = 2000"

subsection \<open>Data\<close>

record SignedUrlCache =
  url :: string
  expiresAt :: int

text \<open>
  What a Redis read may deserialise to: an object with the two fields, or any other
  value (one that fails \<open>typeof v === 'object' && v.expiresAt > ...\<close>). An absent key
  (\<open>null\<close>) is \<open>None\<close> at the place of use.
\<close>

datatype redis_value = Obj SignedUrlCache | NonObj

datatype event =
    MemGet string
  | MemSet string SignedUrlCache
  | RedisGet string
  | RedisMGet "string list"
  | RedisSet string SignedUrlCache int
  | RedisPipeline "(string \<times> SignedUrlCache \<times> int) list"
  | Sign string int
  | SignAttachment string string int

datatype error = RedisFailure | SignerFailure

text \<open>
  The Redis store maps a key to its value and the instant at which its TTL lapses
  (\<open>{ ex: seconds }\<close> of \<open>SET\<close>).
\<close>

record state =
  signedUrlCache :: "string \<rightharpoonup> SignedUrlCache"
  redis :: "string \<rightharpoonup> redis_value \<times> int"
  trace :: "event list"

record env =
  getSignedUrl :: "string \<Rightarrow> string option \<Rightarrow> int \<Rightarrow> int \<Rightarrow> string option"
  get_rejects :: "string \<Rightarrow> bool"
  set_rejects :: "string \<Rightarrow> bool"
  mget_rejects :: bool
  mget_latency :: nat
  pipeline_rejects :: bool

text \<open>
  \<open>getSignedUrl E key disposition expiresIn now\<close> is the presigner called on a
  \<open>GetObjectCommand\<close> for \<open>key\<close> (with the optional \<open>ResponseContentDisposition\<close>)
  and \<open>expiresIn\<close> seconds, at instant \<open>now\<close>.
\<close>

subsection \<open>Locator parser\<close>

fun splitOn :: "char \<Rightarrow> string \<Rightarrow> string list" where
  "splitOn c [] = [[]]"
| "splitOn c (x # xs) =
     (if x = c then [] # splitOn c xs
      else (case splitOn c xs of p # ps \<Rightarrow> (x # p) # ps | [] \<Rightarrow> [[x]]))"

fun joinWith :: "char \<Rightarrow> string list \<Rightarrow> string" where
  "joinWith c [] = []"
| "joinWith c [p] = p"
| "joinWith c (p # q # ps) = p @ c # joinWith c (q # ps)"

definition startsWith :: "string \<Rightarrow> string \<Rightarrow> bool" where
  "startsWith s p \<longleftrightarrow> take (length p) s = p"

text \<open>The characters that \<open>.\<close> of a JavaScript regular expression does not match.\<close>

definition lineTerminator :: "char \<Rightarrow> bool" where
  "lineTerminator c \<longleftrightarrow> c = CHR 0x0A \<or> c = CHR 0x0D"

text \<open>
  \<open>/\/file\/[^\/]+\/(.+)$/\<close> tried at the start of \<open>s\<close>: \<open>/file/\<close>, then the
  non-empty run of characters up to the next slash, the slash, and a non-empty rest
  without line terminators, which is the captured group.
\<close>

definition matchHere :: "string \<Rightarrow> string option" where
  "matchHere s =
     (if startsWith s ''/file/'' then
        (let r = drop 6 s;
             seg = takeWhile (\<lambda>c. c \<noteq> CHR ''/'') r;
             rest = dropWhile (\<lambda>c. c \<noteq> CHR ''/'') r
         in if seg \<noteq> [] \<and> rest \<noteq> [] \<and> tl rest \<noteq> [] \<and> \<not> list_ex lineTerminator (tl rest)
            then Some (tl rest) else None)
      else None)"

text \<open>\<open>url.match(...)\<close>: the leftmost position at which the expression matches.\<close>

fun legacyMatch :: "string \<Rightarrow> string option" where
  "legacyMatch [] = None"
| "legacyMatch (c # cs) =
     (case matchHere (c # cs) of Some k \<Rightarrow> Some k | None \<Rightarrow> legacyMatch cs)"

text \<open>
  Since the string starts with \<open>r2://\<close>, \<open>url.replace('r2://', '')\<close> removes these
  first five characters. \<open>parts.shift()\<close> is \<open>tl\<close>.
\<close>

definition parseR2Url :: "string \<Rightarrow> string option" where
  "parseR2Url fileUrl =
     (if startsWith fileUrl ''r2://'' then
        (let parts = splitOn (CHR ''/'') (drop 5 fileUrl)
         in Some (joinWith (CHR ''/'') (tl parts)))
      else legacyMatch fileUrl)"

text \<open>\<open>!fileKey\<close>: \<open>null\<close> and the empty string are falsy.\<close>

definition falsy :: "string option \<Rightarrow> bool" where
  "falsy k \<longleftrightarrow> k = None \<or> k = Some []"

subsection \<open>The two cache tiers\<close>

definition record_event :: "event \<Rightarrow> state \<Rightarrow> state" where
  "record_event e s = s\<lparr>trace := trace s @ [e]\<rparr>"

definition redisKey :: "string \<Rightarrow> string" where
  "redisKey fileKey = ''signed_url:'' @ fileKey"

text \<open>\<open>c.expiresAt > Date.now() + SAFETY_BUFFER_MS\<close>\<close>

definition fresh :: "int \<Rightarrow> SignedUrlCache \<Rightarrow> bool" where
  "fresh now c \<longleftrightarrow> expiresAt c > now + SAFETY_BUFFER_MS"

text \<open>\<open>memCached && memCached.expiresAt > Date.now() + SAFETY_BUFFER_MS\<close>\<close>

definition memValid :: "int \<Rightarrow> SignedUrlCache option \<Rightarrow> SignedUrlCache option" where
  "memValid now m = (case m of Some c \<Rightarrow> if fresh now c then Some c else None | None \<Rightarrow> None)"

text \<open>\<open>v && typeof v === 'object' && v.expiresAt > Date.now() + SAFETY_BUFFER_MS\<close>\<close>

definition redisValid :: "int \<Rightarrow> redis_value option \<Rightarrow> SignedUrlCache option" where
  "redisValid now v =
     (case v of Some (Obj c) \<Rightarrow> if fresh now c then Some c else None | _ \<Rightarrow> None)"

text \<open>What the store answers for a key at an instant: a value whose TTL has not lapsed.\<close>

definition redisRead :: "(string \<rightharpoonup> redis_value \<times> int) \<Rightarrow> int \<Rightarrow> string \<Rightarrow> redis_value option" where
  "redisRead store now k =
     (case store k of Some (v, deadline) \<Rightarrow> if now < deadline then Some v else None
      | None \<Rightarrow> None)"

definition memSet :: "string \<Rightarrow> SignedUrlCache \<Rightarrow> state \<Rightarrow> state" where
  "memSet fileKey c s =
     (record_event (MemSet fileKey c) s)\<lparr>signedUrlCache := (signedUrlCache s)(fileKey \<mapsto> c)\<rparr>"

text \<open>\<open>{ ex: SIGNED_URL_EXPIRY - 300 }\<close>, in milliseconds from \<open>now\<close>.\<close>

definition ttlDeadline :: "int \<Rightarrow> int" where
  "ttlDeadline now = now + (SIGNED_URL_EXPIRY - 300) * 1000"

definition redisWrite :: "string \<Rightarrow> SignedUrlCache \<Rightarrow> int \<Rightarrow> state \<Rightarrow> state" where
  "redisWrite k c deadline s = s\<lparr>redis := (redis s)(k \<mapsto> (Obj c, deadline))\<rparr>"

subsection \<open>Single-key resolver\<close>

text \<open>
  Lines 161-200 of \<open>getSignedDownloadUrl\<close>, entered after the memory cache missed.
  \<open>store\<close> is the Redis content that the \<open>GET\<close> reads. The \<open>catch\<close> block logs and
  rethrows, so every rejection inside the \<open>try\<close> is the result.
\<close>

definition afterMemMiss ::
  "env \<Rightarrow> int \<Rightarrow> (string \<rightharpoonup> redis_value \<times> int) \<Rightarrow> string \<Rightarrow> state \<Rightarrow> (error + string) \<times> state" where
  "afterMemMiss E now store fileKey s =
     (let cacheKey = redisKey fileKey;
          s1 = record_event (RedisGet cacheKey) s
      in if get_rejects E cacheKey then (Inl RedisFailure, s1)
         else
           (case redisValid now (redisRead store now cacheKey) of
              Some cached \<Rightarrow>
                (Inr (url cached),
                 memSet fileKey \<lparr>url = url cached, expiresAt = expiresAt cached\<rparr> s1)
            | None \<Rightarrow>
                (let s2 = record_event (Sign fileKey SIGNED_URL_EXPIRY) s1
                 in case getSignedUrl E fileKey None SIGNED_URL_EXPIRY now of
                      None \<Rightarrow> (Inl SignerFailure, s2)
                    | Some signedUrl \<Rightarrow>
                        (let expAt = now + SIGNED_URL_CACHE_DURATION;
                             entry = \<lparr>url = signedUrl, expiresAt = expAt\<rparr>;
                             s3 = memSet fileKey entry s2;
                             s4 = record_event (RedisSet cacheKey entry (SIGNED_URL_EXPIRY - 300)) s3
                         in if set_rejects E cacheKey then (Inl RedisFailure, s4)
                            else (Inr signedUrl, redisWrite cacheKey entry (ttlDeadline now) s4)))))"

definition getSignedDownloadUrl :: "env \<Rightarrow> int \<Rightarrow> string \<Rightarrow> state \<Rightarrow> (error + string) \<times> state" where
  "getSignedDownloadUrl E now fileKey s =
     (let s1 = record_event (MemGet fileKey) s
      in case memValid now (signedUrlCache s1 fileKey) of
           Some memCached \<Rightarrow> (Inr (url memCached), s1)
         | None \<Rightarrow> afterMemMiss E now (redis s1) fileKey s1)"

definition getAuthenticatedUrl :: "env \<Rightarrow> int \<Rightarrow> string \<Rightarrow> state \<Rightarrow> (error + string) \<times> state" where
  "getAuthenticatedUrl E now fileUrl s =
     (let fileKey = parseR2Url fileUrl
      in if falsy fileKey then (Inr fileUrl, s)
         else getSignedDownloadUrl E now (the fileKey) s)"

text \<open>
  The same three functions with two clock reads told apart. \<open>now\<close> is what
  \<open>Date.now()\<close> returns at the two expiry checks (lines 157 and 166), and the instant
  at which the presigner is called; \<open>later\<close> is what it returns on line 180, after
  \<open>await getSignedUrl(...)\<close>. The entry records
  \<open>later + SIGNED_URL_CACHE_DURATION\<close>, and the \<open>SET\<close> with its TTL is sent at
  \<open>later\<close>. With \<open>later = now\<close> these are the functions above.
\<close>

definition afterMemMissAt ::
  "env \<Rightarrow> int \<Rightarrow> int \<Rightarrow> (string \<rightharpoonup> redis_value \<times> int) \<Rightarrow> string \<Rightarrow> state \<Rightarrow> (error + string) \<times> state" where
  "afterMemMissAt E now later store fileKey s =
     (let cacheKey = redisKey fileKey;
          s1 = record_event (RedisGet cacheKey) s
      in if get_rejects E cacheKey then (Inl RedisFailure, s1)
         else
           (case redisValid now (redisRead store now cacheKey) of
              Some cached \<Rightarrow>
                (Inr (url cached),
                 memSet fileKey \<lparr>url = url cached, expiresAt = expiresAt cached\<rparr> s1)
            | None \<Rightarrow>
                (let s2 = record_event (Sign fileKey SIGNED_URL_EXPIRY) s1
                 in case getSignedUrl E fileKey None SIGNED_URL_EXPIRY now of
                      None \<Rightarrow> (Inl SignerFailure, s2)
                    | Some signedUrl \<Rightarrow>
                        (let expAt = later + SIGNED_URL_CACHE_DURATION;
                             entry = \<lparr>url = signedUrl, expiresAt = expAt\<rparr>;
                             s3 = memSet fileKey entry s2;
                             s4 = record_event (RedisSet cacheKey entry (SIGNED_URL_EXPIRY - 300)) s3
                         in if set_rejects E cacheKey then (Inl RedisFailure, s4)
                            else (Inr signedUrl, redisWrite cacheKey entry (ttlDeadline later) s4)))))"

definition getSignedDownloadUrlAt ::
  "env \<Rightarrow> int \<Rightarrow> int \<Rightarrow> string \<Rightarrow> state \<Rightarrow> (error + string) \<times> state" where
  "getSignedDownloadUrlAt E now later fileKey s =
     (let s1 = record_event (MemGet fileKey) s
      in case memValid now (signedUrlCache s1 fileKey) of
           Some memCached \<Rightarrow> (Inr (url memCached), s1)
         | None \<Rightarrow> afterMemMissAt E now later (redis s1) fileKey s1)"

definition getAuthenticatedUrlAt ::
  "env \<Rightarrow> int \<Rightarrow> int \<Rightarrow> string \<Rightarrow> state \<Rightarrow> (error + string) \<times> state" where
  "getAuthenticatedUrlAt E now later fileUrl s =
     (let fileKey = parseR2Url fileUrl
      in if falsy fileKey then (Inr fileUrl, s)
         else getSignedDownloadUrlAt E now later (the fileKey) s)"

subsection \<open>Attachment variant\<close>

definition disposition :: "string \<Rightarrow> string" where
  "disposition fileName = ''attachment; filename=\"'' @ fileName @ ''\"''"

definition getSignedDownloadUrlForAttachment ::
  "env \<Rightarrow> int \<Rightarrow> string \<Rightarrow> string \<Rightarrow> state \<Rightarrow> (error + string) \<times> state" where
  "getSignedDownloadUrlForAttachment E now fileKey fileName s =
     (let s1 = record_event (SignAttachment fileKey fileName 3600) s
      in case getSignedUrl E fileKey (Some (disposition fileName)) 3600 now of
           None \<Rightarrow> (Inl SignerFailure, s1)
         | Some signedUrl \<Rightarrow> (Inr signedUrl, s1))"

subsection \<open>Batch resolver\<close>

text \<open>
  The body of \<open>keys.forEach((item, index) => ...)\<close>; \<open>keys\<close> holds the pairs
  \<open>(original, key)\<close>.
\<close>

definition memStep ::
  "int \<Rightarrow> (string \<times> string option) list \<Rightarrow> nat
   \<Rightarrow> string list \<times> nat list \<times> state \<Rightarrow> string list \<times> nat list \<times> state" where
  "memStep now keys index = (\<lambda>(results, missingIndices, s).
     (let item = keys ! index
      in if falsy (snd item) then (results[index := fst item], missingIndices, s)
         else
           (let s1 = record_event (MemGet (the (snd item))) s
            in case memValid now (signedUrlCache s1 (the (snd item))) of
                 Some memCached \<Rightarrow> (results[index := url memCached], missingIndices, s1)
               | None \<Rightarrow> (results, missingIndices @ [index], s1))))"

text \<open>
  \<open>Promise.race([redisPromise, timeoutPromise])\<close>: the bulk read answers (or rejects)
  when it takes less than the timer; otherwise the timer wins with \<open>null\<close> and the
  late answer has no reader. A rejection is thrown to the \<open>catch\<close> of the batch.
\<close>

definition raceMget ::
  "env \<Rightarrow> int \<Rightarrow> string list \<Rightarrow> state \<Rightarrow> error + redis_value option list option" where
  "raceMget E now missingKeys s =
     (if mget_latency E < MGET_TIMEOUT_MS then
        (if mget_rejects E then Inl RedisFailure
         else Inr (Some (map (redisRead (redis s) now) missingKeys)))
      else Inr None)"

text \<open>The body of \<open>redisValues.forEach((val, i) => ...)\<close>.\<close>

definition redisStep ::
  "int \<Rightarrow> (string \<times> string option) list \<Rightarrow> nat list \<Rightarrow> redis_value option list \<Rightarrow> nat
   \<Rightarrow> string list \<times> nat list \<times> state \<Rightarrow> string list \<times> nat list \<times> state" where
  "redisStep now keys missingIndices redisValues i = (\<lambda>(results, stillMissingIndices, s).
     (let originalIndex = missingIndices ! i
      in case redisValid now (redisValues ! i) of
           Some v \<Rightarrow>
             (results[originalIndex := url v], stillMissingIndices,
              memSet (the (snd (keys ! originalIndex))) \<lparr>url = url v, expiresAt = expiresAt v\<rparr> s)
         | None \<Rightarrow> (results, stillMissingIndices @ [originalIndex], s)))"

text \<open>
  The callback of \<open>stillMissingIndices.map(async (index) => ...)\<close>. All callbacks are
  started; one that is rejected makes \<open>Promise.all\<close> reject (the flag), the others
  still write the memory cache. The embedding takes the schedule in which every callback
  has settled when the \<open>catch\<close> block runs; in another schedule the block runs while
  callbacks are still waiting for the presigner, and their writes come after it.
\<close>

definition signStep ::
  "env \<Rightarrow> int \<Rightarrow> int \<Rightarrow> (string \<times> string option) list \<Rightarrow> nat
   \<Rightarrow> string list \<times> (string \<times> string \<times> int) list \<times> bool \<times> state
   \<Rightarrow> string list \<times> (string \<times> string \<times> int) list \<times> bool \<times> state" where
  "signStep E now expAt keys index = (\<lambda>(results, signedResults, failed, s).
     (let fileKey = the (snd (keys ! index));
          s1 = record_event (Sign fileKey SIGNED_URL_EXPIRY) s
      in case getSignedUrl E fileKey None SIGNED_URL_EXPIRY now of
           None \<Rightarrow> (results, signedResults, True, s1)
         | Some signedUrl \<Rightarrow>
             (results[index := signedUrl], signedResults @ [(fileKey, signedUrl, expAt)], failed,
              memSet fileKey \<lparr>url = signedUrl, expiresAt = expAt\<rparr> s1)))"

text \<open>
  The pipeline of \<open>SET\<close>s, executed without \<open>await\<close>; its rejection is caught and
  logged. The writes are applied at once.
\<close>

definition pipelineExec :: "env \<Rightarrow> int \<Rightarrow> (string \<times> string \<times> int) list \<Rightarrow> state \<Rightarrow> state" where
  "pipelineExec E now signedResults s =
     (if signedResults = [] then s
      else
        (let cmds = map (\<lambda>(key, u, exp). (redisKey key, \<lparr>url = u, expiresAt = exp\<rparr>,
                                            SIGNED_URL_EXPIRY - 300)) signedResults;
             s1 = record_event (RedisPipeline cmds) s
         in if pipeline_rejects E then s1
            else fold (\<lambda>(k, c, ex). redisWrite k c (ttlDeadline now)) cmds s1))"

text \<open>The \<open>try\<close> block of \<open>getAuthenticatedUrls\<close>; \<open>Inl\<close> is what reaches its \<open>catch\<close>.\<close>

definition batchPath :: "env \<Rightarrow> int \<Rightarrow> string list \<Rightarrow> state \<Rightarrow> (error + string list) \<times> state" where
  "batchPath E now fileUrls s =
     (let keys = map (\<lambda>u. (u, parseR2Url u)) fileUrls;
          results0 = replicate (length fileUrls) []
      in case fold (memStep now keys) [0..<length keys] (results0, [], s) of
           (results1, missingIndices, s1) \<Rightarrow>
             if missingIndices = [] then (Inr results1, s1)
             else
               (let missingKeys = map (\<lambda>i. redisKey (the (snd (keys ! i)))) missingIndices;
                    s2 = record_event (RedisMGet missingKeys) s1
                in case raceMget E now missingKeys s2 of
                     Inl e \<Rightarrow> (Inl e, s2)
                   | Inr redisValues \<Rightarrow>
                       (case (case redisValues of
                                Some vals \<Rightarrow>
                                  fold (redisStep now keys missingIndices vals) [0..<length vals]
                                    (results1, [], s2)
                              | None \<Rightarrow> (results1, missingIndices, s2)) of
                          (results2, stillMissingIndices, s3) \<Rightarrow>
                            if stillMissingIndices = [] then (Inr results2, s3)
                            else
                              (let expAt = now + SIGNED_URL_CACHE_DURATION
                               in case fold (signStep E now expAt keys) stillMissingIndices
                                         (results2, [], False, s3) of
                                    (results3, signedResults, failed, s4) \<Rightarrow>
                                      if failed then (Inl SignerFailure, s4)
                                      else (Inr results3, pipelineExec E now signedResults s4)))))"

text \<open>
  The \<open>catch\<close> block: \<open>Promise.all(fileUrls.map(url => getAuthenticatedUrl(url)))\<close>.
  \<open>map\<close> starts every call before any of them is resumed: an \<open>async\<close> function runs
  up to its first \<open>await\<close> when it is called. So each call parses and reads the memory
  cache first (\<open>startResolve\<close>); a call that missed is then suspended at
  \<open>redis.get\<close>. The suspended calls are resumed in the order of the list, and each
  \<open>GET\<close> reads the store as it was when the calls were started, the requests having
  all been sent by then (\<open>finishResolve\<close>).
\<close>

datatype pending = Settled string | Awaiting string

definition startResolve :: "int \<Rightarrow> string \<Rightarrow> state \<Rightarrow> pending \<times> state" where
  "startResolve now fileUrl s =
     (let fileKey = parseR2Url fileUrl
      in if falsy fileKey then (Settled fileUrl, s)
         else
           (let s1 = record_event (MemGet (the fileKey)) s
            in case memValid now (signedUrlCache s1 (the fileKey)) of
                 Some memCached \<Rightarrow> (Settled (url memCached), s1)
               | None \<Rightarrow> (Awaiting (the fileKey), s1)))"

fun finishResolve ::
  "env \<Rightarrow> int \<Rightarrow> (string \<rightharpoonup> redis_value \<times> int) \<Rightarrow> pending \<Rightarrow> state \<Rightarrow> (error + string) \<times> state" where
  "finishResolve E now store (Settled u) s = (Inr u, s)"
| "finishResolve E now store (Awaiting fileKey) s = afterMemMiss E now store fileKey s"

fun startAll :: "int \<Rightarrow> string list \<Rightarrow> state \<Rightarrow> pending list \<times> state" where
  "startAll now [] s = ([], s)"
| "startAll now (u # us) s =
     (case startResolve now u s of
        (p, s1) \<Rightarrow> (case startAll now us s1 of (ps, s2) \<Rightarrow> (p # ps, s2)))"

fun finishAll ::
  "env \<Rightarrow> int \<Rightarrow> (string \<rightharpoonup> redis_value \<times> int) \<Rightarrow> pending list \<Rightarrow> state
   \<Rightarrow> (error + string) list \<times> state" where
  "finishAll E now store [] s = ([], s)"
| "finishAll E now store (p # ps) s =
     (case finishResolve E now store p s of
        (r, s1) \<Rightarrow> (case finishAll E now store ps s1 of (rs, s2) \<Rightarrow> (r # rs, s2)))"

text \<open>\<open>Promise.all\<close>: the values in order, or a rejection when one promise is rejected.\<close>

fun promiseAll :: "(error + 'a) list \<Rightarrow> error + 'a list" where
  "promiseAll [] = Inr []"
| "promiseAll (Inl e # rs) = Inl e"
| "promiseAll (Inr v # rs) = (case promiseAll rs of Inl e \<Rightarrow> Inl e | Inr vs \<Rightarrow> Inr (v # vs))"

definition fallback :: "env \<Rightarrow> int \<Rightarrow> string list \<Rightarrow> state \<Rightarrow> (error + string list) \<times> state" where
  "fallback E now fileUrls s =
     (case startAll now fileUrls s of
        (ps, s1) \<Rightarrow>
          (case finishAll E now (redis s1) ps s1 of
             (rs, s2) \<Rightarrow> (promiseAll rs, s2)))"

definition getAuthenticatedUrls :: "env \<Rightarrow> int \<Rightarrow> string list \<Rightarrow> state \<Rightarrow> (error + string list) \<times> state" where
  "getAuthenticatedUrls E now fileUrls s =
     (if fileUrls = [] then (Inr [], s)
      else
        (case batchPath E now fileUrls s of
           (Inr results, s1) \<Rightarrow> (Inr results, s1)
         | (Inl e, s1) \<Rightarrow> fallback E now fileUrls s1))"

subsection \<open>What the batch resolver computes, per reference\<close>

text \<open>
  The functions of this subsection describe the batch resolver reference by reference.
  They are proved equal to the fold-based model above (\<open>batchPath_closed\<close>), and
  the theorems on the batch resolver are stated with them.
  \<open>keyOf\<close> is the file key of a reference and \<open>resolvable\<close> says that the key
  is truthy; \<open>memHit\<close> and \<open>storeHit\<close> are the entries that pass the expiry check
  in the memory cache and in a Redis store; \<open>needsLookup\<close> marks the references
  that go to Redis and \<open>needsSigning\<close> those that go to the presigner.
\<close>

definition keyOf :: "string \<Rightarrow> string" where
  "keyOf fileUrl = the (parseR2Url fileUrl)"

definition resolvable :: "string \<Rightarrow> bool" where
  "resolvable fileUrl \<longleftrightarrow> \<not> falsy (parseR2Url fileUrl)"

definition memHit :: "int \<Rightarrow> state \<Rightarrow> string \<Rightarrow> SignedUrlCache option" where
  "memHit now s fileUrl = memValid now (signedUrlCache s (keyOf fileUrl))"

definition needsLookup :: "int \<Rightarrow> state \<Rightarrow> string \<Rightarrow> bool" where
  "needsLookup now s fileUrl \<longleftrightarrow> resolvable fileUrl \<and> memHit now s fileUrl = None"

definition afterMem :: "int \<Rightarrow> state \<Rightarrow> string \<Rightarrow> string" where
  "afterMem now s fileUrl =
     (if resolvable fileUrl then (case memHit now s fileUrl of Some c \<Rightarrow> url c | None \<Rightarrow> [])
      else fileUrl)"

definition storeHit :: "int \<Rightarrow> (string \<rightharpoonup> redis_value \<times> int) \<Rightarrow> string \<Rightarrow> SignedUrlCache option" where
  "storeHit now store fileUrl = redisValid now (redisRead store now (redisKey (keyOf fileUrl)))"

definition backfill :: "int \<Rightarrow> (string \<rightharpoonup> redis_value \<times> int) \<Rightarrow> string \<Rightarrow> state \<Rightarrow> state" where
  "backfill now store fileUrl st =
     (case storeHit now store fileUrl of Some c \<Rightarrow> memSet (keyOf fileUrl) c st | None \<Rightarrow> st)"

definition presigned :: "env \<Rightarrow> int \<Rightarrow> string \<Rightarrow> string option" where
  "presigned E now fileUrl = getSignedUrl E (keyOf fileUrl) None SIGNED_URL_EXPIRY now"

definition signEffect :: "env \<Rightarrow> int \<Rightarrow> string \<Rightarrow> state \<Rightarrow> state" where
  "signEffect E now fileUrl st =
     (let st1 = record_event (Sign (keyOf fileUrl) SIGNED_URL_EXPIRY) st
      in case presigned E now fileUrl of
           None \<Rightarrow> st1
         | Some u \<Rightarrow> memSet (keyOf fileUrl) \<lparr>url = u, expiresAt = now + SIGNED_URL_CACHE_DURATION\<rparr> st1)"

definition replied :: "env \<Rightarrow> bool" where
  "replied E \<longleftrightarrow> mget_latency E < MGET_TIMEOUT_MS"

definition distHit :: "env \<Rightarrow> int \<Rightarrow> state \<Rightarrow> string \<Rightarrow> SignedUrlCache option" where
  "distHit E now s fileUrl = (if replied E then storeHit now (redis s) fileUrl else None)"

definition needsSigning :: "env \<Rightarrow> int \<Rightarrow> state \<Rightarrow> string \<Rightarrow> bool" where
  "needsSigning E now s fileUrl \<longleftrightarrow> needsLookup now s fileUrl \<and> distHit E now s fileUrl = None"

definition expected :: "env \<Rightarrow> int \<Rightarrow> state \<Rightarrow> string \<Rightarrow> string" where
  "expected E now s fileUrl =
     (if resolvable fileUrl then
        (case memHit now s fileUrl of
           Some c \<Rightarrow> url c
         | None \<Rightarrow>
             (case distHit E now s fileUrl of
                Some c \<Rightarrow> url c
              | None \<Rightarrow> (case presigned E now fileUrl of Some u \<Rightarrow> u | None \<Rightarrow> [])))
      else fileUrl)"

definition batchOutcome :: "env \<Rightarrow> int \<Rightarrow> state \<Rightarrow> string list \<Rightarrow> error + string list" where
  "batchOutcome E now s fileUrls =
     (if list_ex (needsLookup now s) fileUrls \<and> replied E \<and> mget_rejects E then Inl RedisFailure
      else if list_ex (\<lambda>u. needsSigning E now s u \<and> presigned E now u = None) fileUrls
           then Inl SignerFailure
      else Inr (map (expected E now s) fileUrls))"

definition batchState :: "env \<Rightarrow> int \<Rightarrow> state \<Rightarrow> string list \<Rightarrow> state" where
  "batchState E now s fileUrls =
     (let s1 = s\<lparr>trace := trace s @ map (\<lambda>u. MemGet (keyOf u)) (filter resolvable fileUrls)\<rparr>;
          lookups = filter (needsLookup now s) fileUrls;
          s2 = record_event (RedisMGet (map (\<lambda>u. redisKey (keyOf u)) lookups)) s1;
          s3 = (if replied E then fold (backfill now (redis s)) lookups s2 else s2);
          signings = filter (needsSigning E now s) fileUrls;
          s4 = fold (signEffect E now) signings s3
      in if lookups = [] then s1
         else if replied E \<and> mget_rejects E then s2
         else if signings = [] then s3
         else if list_ex (\<lambda>u. presigned E now u = None) signings then s4
         else pipelineExec E now
                (map (\<lambda>u. (keyOf u, the (presigned E now u), now + SIGNED_URL_CACHE_DURATION)) signings) s4)"

subsection \<open>What the single-key resolver and the fallback return\<close>

text \<open>
  \<open>missOutcome\<close> is the value of lines 161-200 of \<open>getSignedDownloadUrl\<close> and
  \<open>singleOutcome\<close> the value of \<open>getAuthenticatedUrl\<close>; \<open>pendingOf\<close> is what
  a call of the fallback is after its synchronous start.
\<close>

definition pendingOf :: "int \<Rightarrow> state \<Rightarrow> string \<Rightarrow> pending" where
  "pendingOf now s fileUrl =
     (if resolvable fileUrl then
        (case memHit now s fileUrl of Some c \<Rightarrow> Settled (url c) | None \<Rightarrow> Awaiting (keyOf fileUrl))
      else Settled fileUrl)"

definition missOutcome :: "env \<Rightarrow> int \<Rightarrow> (string \<rightharpoonup> redis_value \<times> int) \<Rightarrow> string \<Rightarrow> error + string" where
  "missOutcome E now store fileKey =
     (if get_rejects E (redisKey fileKey) then Inl RedisFailure
      else
        (case redisValid now (redisRead store now (redisKey fileKey)) of
           Some c \<Rightarrow> Inr (url c)
         | None \<Rightarrow>
             (case getSignedUrl E fileKey None SIGNED_URL_EXPIRY now of
                None \<Rightarrow> Inl SignerFailure
              | Some u \<Rightarrow> if set_rejects E (redisKey fileKey) then Inl RedisFailure else Inr u)))"

definition singleOutcome :: "env \<Rightarrow> int \<Rightarrow> state \<Rightarrow> string \<Rightarrow> error + string" where
  "singleOutcome E now s fileUrl =
     (if resolvable fileUrl then
        (case memHit now s fileUrl of
           Some c \<Rightarrow> Inr (url c)
         | None \<Rightarrow> missOutcome E now (redis s) (keyOf fileUrl))
      else Inr fileUrl)"

text \<open>
  Resolving the references one after another through the single-key resolver, each call
  starting in the state the previous one left, and stopping at the first failure.
\<close>

fun resolveSequentially :: "env \<Rightarrow> int \<Rightarrow> string list \<Rightarrow> state \<Rightarrow> (error + string list) \<times> state" where
  "resolveSequentially E now [] s = (Inr [], s)"
| "resolveSequentially E now (u # us) s =
     (case getAuthenticatedUrl E now u s of
        (Inl e, s1) \<Rightarrow> (Inl e, s1)
      | (Inr r, s1) \<Rightarrow>
          (case resolveSequentially E now us s1 of
             (Inl e, s2) \<Rightarrow> (Inl e, s2)
           | (Inr rs, s2) \<Rightarrow> (Inr (r # rs), s2)))"

subsection \<open>Properties of cache entries\<close>

text \<open>
  \<open>tiersSatisfy P t st\<close>: every entry of the memory cache, and every entry that a
  read of Redis at instant \<open>t\<close> returns under a \<open>signed_url:\<close> key, satisfies
  \<open>P\<close>. \<open>signerSatisfies P E now\<close>: so does the entry that the resolvers build
  from a presigner call at \<open>now\<close>.
\<close>

definition tiersSatisfy :: "(string \<Rightarrow> SignedUrlCache \<Rightarrow> bool) \<Rightarrow> int \<Rightarrow> state \<Rightarrow> bool" where
  "tiersSatisfy P t st \<longleftrightarrow>
     (\<forall>k c. signedUrlCache st k = Some c \<longrightarrow> P k c) \<and>
     (\<forall>k c. redisRead (redis st) t (redisKey k) = Some (Obj c) \<longrightarrow> P k c)"

definition signerSatisfies :: "(string \<Rightarrow> SignedUrlCache \<Rightarrow> bool) \<Rightarrow> env \<Rightarrow> int \<Rightarrow> bool" where
  "signerSatisfies P E now \<longleftrightarrow>
     (\<forall>k u. getSignedUrl E k None SIGNED_URL_EXPIRY now = Some u \<longrightarrow>
        P k \<lparr>url = u, expiresAt = now + SIGNED_URL_CACHE_DURATION\<rparr>)"

text \<open>Counting presigner calls in a trace.\<close>

fun isSign :: "event \<Rightarrow> bool" where
  "isSign (Sign k ex) = True"
| "isSign (SignAttachment k f ex) = True"
| "isSign _ = False"

definition signCalls :: "event list \<Rightarrow> nat" where
  "signCalls tr = length (filter isSign tr)"

text \<open>A run of calls of the attachment variant, each at its instant, for a key and a file name.\<close>

fun attachmentCalls :: "env \<Rightarrow> (int \<times> string \<times> string) list \<Rightarrow> state \<Rightarrow> state" where
  "attachmentCalls E [] s = s"
| "attachmentCalls E ((now, fileKey, fileName) # cs) s =
     attachmentCalls E cs (snd (getSignedDownloadUrlForAttachment E now fileKey fileName s))"

text \<open>
  The keys of the presigner calls of the resolvers in a trace, in order; \<open>provenance\<close>
  says where a cache entry comes from: the memory cache, a read of Redis, or a presigner
  call at \<open>now\<close>; a reference is \<open>cold\<close> when neither tier holds an entry for its
  key that passes the expiry check.
\<close>

fun signKeys :: "event list \<Rightarrow> string list" where
  "signKeys [] = []"
| "signKeys (Sign k ex # es) = k # signKeys es"
| "signKeys (e # es) = signKeys es"

definition provenance :: "env \<Rightarrow> int \<Rightarrow> state \<Rightarrow> string \<Rightarrow> SignedUrlCache \<Rightarrow> bool" where
  "provenance E now s k c \<longleftrightarrow>
     signedUrlCache s k = Some c \<or>
     redisRead (redis s) now (redisKey k) = Some (Obj c) \<or>
     (getSignedUrl E k None SIGNED_URL_EXPIRY now = Some (url c) \<and>
      expiresAt c = now + SIGNED_URL_CACHE_DURATION)"

definition cold :: "int \<Rightarrow> state \<Rightarrow> string \<Rightarrow> bool" where
  "cold now s fileUrl \<longleftrightarrow>
     resolvable fileUrl \<and> memHit now s fileUrl = None \<and> storeHit now (redis s) fileUrl = None"

text \<open>
  What the batch resolver returns for a reference when the bulk read is lost to the
  timer: the URL of the memory cache, or else the presigner's.
\<close>

definition degraded :: "env \<Rightarrow> int \<Rightarrow> state \<Rightarrow> string \<Rightarrow> string" where
  "degraded E now s fileUrl =
     (if resolvable fileUrl then
        (case memHit now s fileUrl of Some c \<Rightarrow> url c | None \<Rightarrow> the (presigned E now fileUrl))
      else fileUrl)"

subsection \<open>A concrete environment and cache state\<close>

text \<open>
  A presigner that builds the URL from the key, a Redis that answers the bulk read after
  10 ms, and caches that hold one entry in memory and two in Redis.
\<close>

definition demoEnv :: env where
  "demoEnv = \<lparr>getSignedUrl = (\<lambda>k d ex t. Some (''https://r2/'' @ k @ ''?X-Amz-Expires=3600'')),
              get_rejects = (\<lambda>_. False), set_rejects = (\<lambda>_. False),
              mget_rejects = False, mget_latency = 10, pipeline_rejects = False\<rparr>"

definition emptyState :: state where
  "emptyState = \<lparr>signedUrlCache = Map.empty, redis = Map.empty, trace = []\<rparr>"

definition warmState :: state where
  "warmState = \<lparr>signedUrlCache = [''a.jpg'' \<mapsto> \<lparr>url = ''https://r2/a.jpg?old'', expiresAt = 2000000\<rparr>],
                redis = [''signed_url:b.jpg'' \<mapsto> (Obj \<lparr>url = ''https://r2/b.jpg?old'', expiresAt = 2500000\<rparr>, 2800000),
                         ''signed_url:c.jpg'' \<mapsto> (Obj \<lparr>url = ''https://r2/c.jpg?old'', expiresAt = 2500000\<rparr>, 2800000)],
                trace = []\<rparr>"

text \<open>Five references, and the same Redis answering the bulk read after 3000 ms.\<close>

definition demoRefs :: "string list" where
  "demoRefs = [''r2://bucket/a.jpg'', ''r2://bucket/b.jpg'', ''r2://bucket/c.jpg'',
               ''r2://bucket/d.jpg'', ''r2://bucket/e.jpg'']"

definition slowEnv :: env where
  "slowEnv = demoEnv\<lparr>mget_latency := 3000\<rparr>"

text \<open>
  Two more environments: one whose bulk read rejects, one whose presigner rejects for
  the key \<open>e.jpg\<close>.
\<close>

definition rejectEnv :: env where
  "rejectEnv = demoEnv\<lparr>mget_rejects := True\<rparr>"

definition failEnv :: env where
  "failEnv = demoEnv\<lparr>getSignedUrl := (\<lambda>k d ex t. if k = ''e.jpg'' then None
                                              else Some (''https://r2/'' @ k @ ''?X-Amz-Expires=3600''))\<rparr>"

text \<open>
  Modelled from the spec: the presigner is a library outside the repository. A URL that it
  signs at an instant with \<open>expiresIn: SIGNED_URL_EXPIRY\<close> (seconds) is valid for that
  long from that instant (the spec's \<open>sign(key, ttlSeconds)\<close>; the comment of line 35:
  "URLs valid for 1 hour"); \<open>validUntil\<close> is the instant at which it lapses.
\<close>

definition validUntil :: "int \<Rightarrow> int" where
  "validUntil signedAt = signedAt + SIGNED_URL_EXPIRY * 1000"

text \<open>A batch that names the same cold reference twice.\<close>

definition twiceRefs :: "string list" where
  "twiceRefs = [''r2://bucket/d.jpg'', ''r2://bucket/d.jpg'']"

section \<open>The batch resolver, phase by phase\<close>

lemma map_upt_update:
  "(map f [0..<n])[m := v] = map (f(m := v)) [0..<n]"
  by (rule nth_equalityI) (auto simp: nth_list_update)

lemma memPhase_prefix:
  "m \<le> length fileUrls \<Longrightarrow>
   fold (memStep now (map (\<lambda>u. (u, parseR2Url u)) fileUrls)) [0..<m]
        (replicate (length fileUrls) [], [], s) =
     (map (\<lambda>i. if i < m then afterMem now s (fileUrls ! i) else []) [0..<length fileUrls],
      filter (\<lambda>i. needsLookup now s (fileUrls ! i)) [0..<m],
      s\<lparr>trace := trace s @ map (\<lambda>u. MemGet (keyOf u)) (filter resolvable (take m fileUrls))\<rparr>)"
proof (induction m)
  case 0
  show ?case by (simp add: map_replicate_const)
next
  case (Suc m)
  then have m: "m < length fileUrls" and le: "m \<le> length fileUrls" by simp_all
  have upd: "(\<lambda>i. if i < m then afterMem now s (fileUrls ! i) else [])(m := afterMem now s (fileUrls ! m))
       = (\<lambda>i. if i < Suc m then afterMem now s (fileUrls ! i) else [])"
    by (auto simp: fun_eq_iff less_Suc_eq)
  have keep: "needsLookup now s (fileUrls ! m) \<Longrightarrow>
       (\<lambda>i. if i < m then afterMem now s (fileUrls ! i) else [])
       = (\<lambda>i. if i < Suc m then afterMem now s (fileUrls ! i) else [])"
    by (auto simp: fun_eq_iff less_Suc_eq afterMem_def needsLookup_def)
  show ?case
    using m Suc.IH[OF le] upd keep
    by (auto simp: memStep_def Let_def record_event_def map_upt_update take_Suc_conv_app_nth
        afterMem_def needsLookup_def resolvable_def memHit_def keyOf_def
        split: option.splits)
qed

lemma rebuild_entry [simp]: "\<lparr>url = url (v::SignedUrlCache), expiresAt = expiresAt v\<rparr> = v"
  by (cases v) simp

lemma redisStep_at:
  assumes "j < length missing" and "missing ! j < length fileUrls"
    and "\<forall>i < length fileUrls. keys ! i = (fileUrls ! i, parseR2Url (fileUrls ! i))"
    and "\<forall>j < length missing. vals ! j = redisRead store now (redisKey (keyOf (fileUrls ! (missing ! j))))"
  shows "redisStep now keys missing vals j (R, M, S) =
         (case storeHit now store (fileUrls ! (missing ! j)) of
            Some c \<Rightarrow> (R[missing ! j := url c], M, backfill now store (fileUrls ! (missing ! j)) S)
          | None \<Rightarrow> (R, M @ [missing ! j], backfill now store (fileUrls ! (missing ! j)) S))"
  using assms
  by (simp add: redisStep_def Let_def storeHit_def backfill_def keyOf_def split: option.splits)

lemma redisPhase_prefix:
  assumes "\<forall>i \<in> set missing. i < length fileUrls" and "length results = length fileUrls"
    and keys: "\<forall>i < length fileUrls. keys ! i = (fileUrls ! i, parseR2Url (fileUrls ! i))"
    and vals: "\<forall>j < length missing. vals ! j = redisRead store now (redisKey (keyOf (fileUrls ! (missing ! j))))"
    and "m \<le> length missing"
  shows "fold (redisStep now keys missing vals) [0..<m] (results, [], st) =
     (map (\<lambda>i. if i \<in> set (take m missing)
                 then (case storeHit now store (fileUrls ! i) of Some c \<Rightarrow> url c | None \<Rightarrow> results ! i)
                 else results ! i) [0..<length fileUrls],
      filter (\<lambda>i. storeHit now store (fileUrls ! i) = None) (take m missing),
      fold (backfill now store) (map ((!) fileUrls) (take m missing)) st)"
  using assms(5)
proof (induction m)
  case 0
  have "map ((!) results) [0..<length fileUrls] = results"
    using assms(2) map_nth[of results] by simp
  then show ?case by simp
next
  case (Suc m)
  then have m: "m < length missing" and le: "m \<le> length missing" by simp_all
  then have r: "missing ! m < length fileUrls" using assms(1) by simp
  let ?old = "map (\<lambda>i. if i \<in> set (take m missing)
                 then (case storeHit now store (fileUrls ! i) of Some c \<Rightarrow> url c | None \<Rightarrow> results ! i)
                 else results ! i) [0..<length fileUrls]"
  let ?new = "map (\<lambda>i. if i \<in> set (take (Suc m) missing)
                 then (case storeHit now store (fileUrls ! i) of Some c \<Rightarrow> url c | None \<Rightarrow> results ! i)
                 else results ! i) [0..<length fileUrls]"
  have hit: "?old[missing ! m := url c] = ?new"
    if "storeHit now store (fileUrls ! (missing ! m)) = Some c" for c
    by (rule nth_equalityI) (use that m r in \<open>auto simp: nth_list_update take_Suc_conv_app_nth\<close>)
  have miss: "?old = ?new" if "storeHit now store (fileUrls ! (missing ! m)) = None"
    by (rule nth_equalityI) (use that m in \<open>auto simp: take_Suc_conv_app_nth\<close>)
  have bf: "storeHit now store u = None \<Longrightarrow> backfill now store u S = S" for u S
    by (simp add: backfill_def)
  show ?case
    using m hit miss
    by (simp add: Suc.IH[OF le] redisStep_at[OF m r keys vals] take_Suc_conv_app_nth bf
        split: option.splits)
qed

lemma signStep_at:
  assumes "x < length fileUrls"
    and "\<forall>i < length fileUrls. keys ! i = (fileUrls ! i, parseR2Url (fileUrls ! i))"
  shows "signStep E now (now + SIGNED_URL_CACHE_DURATION) keys x (R, SR, F, S) =
         (case presigned E now (fileUrls ! x) of
            Some u \<Rightarrow> (R[x := u], SR @ [(keyOf (fileUrls ! x), u, now + SIGNED_URL_CACHE_DURATION)], F,
                       signEffect E now (fileUrls ! x) S)
          | None \<Rightarrow> (R, SR, True, signEffect E now (fileUrls ! x) S))"
  using assms
  by (simp add: signStep_def Let_def presigned_def signEffect_def keyOf_def split: option.splits)

lemma signPhase:
  assumes "\<forall>i \<in> set xs. i < length fileUrls" and "length results = length fileUrls"
    and keys: "\<forall>i < length fileUrls. keys ! i = (fileUrls ! i, parseR2Url (fileUrls ! i))"
  shows "fold (signStep E now (now + SIGNED_URL_CACHE_DURATION) keys) xs (results, sr, failed, st) =
     (map (\<lambda>i. if i \<in> set xs
                 then (case presigned E now (fileUrls ! i) of Some u \<Rightarrow> u | None \<Rightarrow> results ! i)
                 else results ! i) [0..<length fileUrls],
      sr @ map (\<lambda>i. (keyOf (fileUrls ! i), the (presigned E now (fileUrls ! i)),
                      now + SIGNED_URL_CACHE_DURATION))
               (filter (\<lambda>i. presigned E now (fileUrls ! i) \<noteq> None) xs),
      failed \<or> (\<exists>i \<in> set xs. presigned E now (fileUrls ! i) = None),
      fold (signEffect E now) (map ((!) fileUrls) xs) st)"
  using assms(1,2)
proof (induction xs arbitrary: results sr failed st)
  case Nil
  have "map ((!) results) [0..<length fileUrls] = results"
    using Nil(2) map_nth[of results] by simp
  then show ?case by simp
next
  case (Cons x xs)
  then have x: "x < length fileUrls" and xs: "\<forall>i \<in> set xs. i < length fileUrls" by simp_all
  let ?new = "map (\<lambda>i. if i \<in> set (x # xs)
                 then (case presigned E now (fileUrls ! i) of Some u \<Rightarrow> u | None \<Rightarrow> results ! i)
                 else results ! i) [0..<length fileUrls]"
  have hit: "map (\<lambda>i. if i \<in> set xs
                 then (case presigned E now (fileUrls ! i) of Some u \<Rightarrow> u | None \<Rightarrow> results[x := u] ! i)
                 else results[x := u] ! i) [0..<length fileUrls] = ?new"
    if "presigned E now (fileUrls ! x) = Some u" for u
    by (rule nth_equalityI)
       (use that x Cons.prems(2) in \<open>auto simp: nth_list_update split: option.splits\<close>)
  have miss: "map (\<lambda>i. if i \<in> set xs
                 then (case presigned E now (fileUrls ! i) of Some u \<Rightarrow> u | None \<Rightarrow> results ! i)
                 else results ! i) [0..<length fileUrls] = ?new"
    if "presigned E now (fileUrls ! x) = None"
    by (rule nth_equalityI) (use that x in \<open>auto split: option.splits\<close>)
  show ?case
  proof (cases "presigned E now (fileUrls ! x)")
    case None
    then show ?thesis
      using Cons.IH[OF xs Cons.prems(2), of sr True "signEffect E now (fileUrls ! x) st"] miss
      by (simp add: signStep_at[OF x keys])
  next
    case (Some u)
    have len: "length (results[x := u]) = length fileUrls" using Cons.prems(2) by simp
    show ?thesis
      using Some Cons.IH[OF xs len, of "sr @ [(keyOf (fileUrls ! x), u, now + SIGNED_URL_CACHE_DURATION)]"
          failed "signEffect E now (fileUrls ! x) st"] hit[OF Some]
      by (simp add: signStep_at[OF x keys])
  qed
qed

lemma map_nth_fun: "map (\<lambda>i. f (xs ! i)) [0..<length xs] = map f xs"
  by (rule nth_equalityI) auto

lemma filter_nth_fun: "map ((!) xs) (filter (\<lambda>i. P (xs ! i)) [0..<length xs]) = filter P xs"
proof (induction xs rule: rev_induct)
  case Nil
  show ?case by simp
next
  case (snoc x xs)
  have a: "filter (\<lambda>i. P ((xs @ [x]) ! i)) [0..<length xs] = filter (\<lambda>i. P (xs ! i)) [0..<length xs]"
    by (rule filter_cong) (auto simp: nth_append)
  have b: "map ((!) (xs @ [x])) (filter (\<lambda>i. P (xs ! i)) [0..<length xs])
      = map ((!) xs) (filter (\<lambda>i. P (xs ! i)) [0..<length xs])"
    by (rule map_cong) (auto simp: nth_append)
  show ?case by (simp add: a b snoc)
qed

lemma filter_idx_bound: "\<forall>i \<in> set (filter P [0..<n]). i < n"
  by simp

lemma memPhase:
  "fold (memStep now (map (\<lambda>u. (u, parseR2Url u)) fileUrls)) [0..<length fileUrls]
        (replicate (length fileUrls) [], [], s) =
     (map (afterMem now s) fileUrls,
      filter (\<lambda>i. needsLookup now s (fileUrls ! i)) [0..<length fileUrls],
      s\<lparr>trace := trace s @ map (\<lambda>u. MemGet (keyOf u)) (filter resolvable fileUrls)\<rparr>)"
proof -
  have "map (\<lambda>i. if i < length fileUrls then afterMem now s (fileUrls ! i) else []) [0..<length fileUrls]
      = map (afterMem now s) fileUrls"
    by (rule nth_equalityI) auto
  then show ?thesis
    using memPhase_prefix[of "length fileUrls" fileUrls now s] by simp
qed

lemma redisPhase:
  assumes missing: "missing = filter (\<lambda>i. needsLookup now s (fileUrls ! i)) [0..<length fileUrls]"
    and keys: "keys = map (\<lambda>u. (u, parseR2Url u)) fileUrls"
    and vals: "vals = map (redisRead store now) (map (\<lambda>i. redisKey (the (snd (keys ! i)))) missing)"
  shows "fold (redisStep now keys missing vals) [0..<length vals] (map (afterMem now s) fileUrls, [], st) =
     (map (\<lambda>u. if needsLookup now s u
                 then (case storeHit now store u of Some c \<Rightarrow> url c | None \<Rightarrow> afterMem now s u)
                 else afterMem now s u) fileUrls,
      filter (\<lambda>i. needsLookup now s (fileUrls ! i) \<and> storeHit now store (fileUrls ! i) = None)
        [0..<length fileUrls],
      fold (backfill now store) (filter (needsLookup now s) fileUrls) st)"
proof -
  have b: "\<forall>i \<in> set missing. i < length fileUrls" using missing by simp
  have k: "\<forall>i < length fileUrls. keys ! i = (fileUrls ! i, parseR2Url (fileUrls ! i))"
    using keys by simp
  have v: "\<forall>j < length missing. vals ! j = redisRead store now (redisKey (keyOf (fileUrls ! (missing ! j))))"
    using vals k b by (simp add: keyOf_def)
  have l: "length vals = length missing" using vals by simp
  have r: "map (\<lambda>i. if i \<in> set missing
                 then (case storeHit now store (fileUrls ! i) of Some c \<Rightarrow> url c
                       | None \<Rightarrow> map (afterMem now s) fileUrls ! i)
                 else map (afterMem now s) fileUrls ! i) [0..<length fileUrls]
        = map (\<lambda>u. if needsLookup now s u
                 then (case storeHit now store u of Some c \<Rightarrow> url c | None \<Rightarrow> afterMem now s u)
                 else afterMem now s u) fileUrls"
    by (rule nth_equalityI) (auto simp: missing split: option.splits)
  have m: "map ((!) fileUrls) missing = filter (needsLookup now s) fileUrls"
    unfolding missing by (rule filter_nth_fun)
  show ?thesis
    using redisPhase_prefix[OF b _ k v, of "map (afterMem now s) fileUrls" "length missing" st] r m
    by (simp add: l missing)
qed

lemma idx_filter_nil:
  "filter (\<lambda>i. P (xs ! i)) [0..<length xs] = [] \<longleftrightarrow> \<not> list_ex P xs"
  using nth_mem[of _ xs] by (auto simp: filter_empty_conv list_ex_iff in_set_conv_nth)

lemma signPhase_full:
  assumes keys: "keys = map (\<lambda>u. (u, parseR2Url u)) fileUrls"
  shows "fold (signStep E now (now + SIGNED_URL_CACHE_DURATION) keys)
           (filter (\<lambda>i. Q (fileUrls ! i)) [0..<length fileUrls]) (map g fileUrls, [], False, st) =
     (map (\<lambda>u. if Q u then (case presigned E now u of Some v \<Rightarrow> v | None \<Rightarrow> g u) else g u) fileUrls,
      map (\<lambda>u. (keyOf u, the (presigned E now u), now + SIGNED_URL_CACHE_DURATION))
          (filter (\<lambda>u. Q u \<and> presigned E now u \<noteq> None) fileUrls),
      list_ex (\<lambda>u. Q u \<and> presigned E now u = None) fileUrls,
      fold (signEffect E now) (filter Q fileUrls) st)"
proof -
  let ?xs = "filter (\<lambda>i. Q (fileUrls ! i)) [0..<length fileUrls]"
  have b: "\<forall>i \<in> set ?xs. i < length fileUrls" by simp
  have k: "\<forall>i < length fileUrls. keys ! i = (fileUrls ! i, parseR2Url (fileUrls ! i))"
    using keys by simp
  have r: "map (\<lambda>i. if i \<in> set ?xs
                 then (case presigned E now (fileUrls ! i) of Some u \<Rightarrow> u | None \<Rightarrow> map g fileUrls ! i)
                 else map g fileUrls ! i) [0..<length fileUrls]
       = map (\<lambda>u. if Q u then (case presigned E now u of Some v \<Rightarrow> v | None \<Rightarrow> g u) else g u) fileUrls"
    by (rule nth_equalityI) (auto split: option.splits)
  have f: "filter (\<lambda>i. presigned E now (fileUrls ! i) \<noteq> None) ?xs
       = filter (\<lambda>i. (\<lambda>u. Q u \<and> presigned E now u \<noteq> None) (fileUrls ! i)) [0..<length fileUrls]"
    by (simp add: conj_commute)
  have sr: "map (\<lambda>i. (keyOf (fileUrls ! i), the (presigned E now (fileUrls ! i)),
                      now + SIGNED_URL_CACHE_DURATION))
               (filter (\<lambda>i. presigned E now (fileUrls ! i) \<noteq> None) ?xs)
       = map (\<lambda>u. (keyOf u, the (presigned E now u), now + SIGNED_URL_CACHE_DURATION))
          (filter (\<lambda>u. Q u \<and> presigned E now u \<noteq> None) fileUrls)"
    unfolding f
    using filter_nth_fun[of fileUrls "\<lambda>u. Q u \<and> presigned E now u \<noteq> None", symmetric]
    by (simp add: comp_def)
  have e: "(\<exists>i \<in> set ?xs. presigned E now (fileUrls ! i) = None)
       \<longleftrightarrow> list_ex (\<lambda>u. Q u \<and> presigned E now u = None) fileUrls"
    using nth_mem[of _ fileUrls] by (auto simp: list_ex_iff in_set_conv_nth)
  have m: "map ((!) fileUrls) ?xs = filter Q fileUrls"
    by (rule filter_nth_fun)
  show ?thesis
    using signPhase[OF b _ k, of "map g fileUrls" E now "[]" False st]
    by (simp only: r sr e m length_map append_Nil simp_thms)
qed

lemma expected_no_lookup:
  "\<not> needsLookup now s u \<Longrightarrow> afterMem now s u = expected E now s u"
  by (auto simp: needsLookup_def afterMem_def expected_def split: option.splits)

lemma afterMem_expected:
  "afterMem now s u = (if needsLookup now s u then [] else expected E now s u)"
  by (auto simp: needsLookup_def afterMem_def expected_def split: option.splits)

lemma afterRedis_expected:
  "replied E \<Longrightarrow>
   (if needsLookup now s u
    then (case storeHit now (redis s) u of Some c \<Rightarrow> url c | None \<Rightarrow> afterMem now s u)
    else afterMem now s u) =
   (if needsSigning E now s u then [] else expected E now s u)"
  by (auto simp: needsLookup_def needsSigning_def afterMem_def expected_def distHit_def
      split: option.splits)

lemma signPhase_expected:
  assumes keys: "keys = map (\<lambda>u. (u, parseR2Url u)) fileUrls"
  shows "fold (signStep E now (now + SIGNED_URL_CACHE_DURATION) keys)
           (filter (\<lambda>i. needsSigning E now s (fileUrls ! i)) [0..<length fileUrls])
           (map (\<lambda>u. if needsSigning E now s u then [] else expected E now s u) fileUrls,
            [], False, st) =
     (map (expected E now s) fileUrls,
      map (\<lambda>u. (keyOf u, the (presigned E now u), now + SIGNED_URL_CACHE_DURATION))
          (filter (\<lambda>u. needsSigning E now s u \<and> presigned E now u \<noteq> None) fileUrls),
      list_ex (\<lambda>u. needsSigning E now s u \<and> presigned E now u = None) fileUrls,
      fold (signEffect E now) (filter (needsSigning E now s) fileUrls) st)"
proof -
  have "(\<lambda>u. if needsSigning E now s u
             then (case presigned E now u of Some v \<Rightarrow> v
                   | None \<Rightarrow> (if needsSigning E now s u then [] else expected E now s u))
             else (if needsSigning E now s u then [] else expected E now s u))
        = expected E now s"
    by (auto simp: fun_eq_iff needsSigning_def needsLookup_def expected_def split: option.splits)
  then show ?thesis
    using signPhase_full[OF keys, of E now "needsSigning E now s"
            "\<lambda>u. if needsSigning E now s u then [] else expected E now s u" st]
    by (simp only:)
qed

lemma filter_all_signed:
  "\<not> list_ex (\<lambda>u. Q u \<and> f u = None) xs \<Longrightarrow> filter (\<lambda>u. Q u \<and> f u \<noteq> None) xs = filter Q xs"
  by (rule filter_cong) (auto simp: list_ex_iff)

lemma list_ex_filter: "list_ex P (filter Q xs) \<longleftrightarrow> list_ex (\<lambda>u. Q u \<and> P u) xs"
  by (auto simp: list_ex_iff)

lemma batchPath_closed:
  "batchPath E now fileUrls s = (batchOutcome E now s fileUrls, batchState E now s fileUrls)"
proof -
  define keys where "keys = map (\<lambda>u. (u, parseR2Url u)) fileUrls"
  define missing where "missing = filter (\<lambda>i. needsLookup now s (fileUrls ! i)) [0..<length fileUrls]"
  define s1 where "s1 = s\<lparr>trace := trace s @ map (\<lambda>u. MemGet (keyOf u)) (filter resolvable fileUrls)\<rparr>"
  define lookups where "lookups = filter (needsLookup now s) fileUrls"
  define s2 where "s2 = record_event (RedisMGet (map (\<lambda>u. redisKey (keyOf u)) lookups)) s1"
  define vals where "vals = map (redisRead (redis s2) now) (map (\<lambda>i. redisKey (the (snd (keys ! i)))) missing)"
  have store: "redis s2 = redis s" by (simp add: s2_def s1_def record_event_def)
  have p1: "fold (memStep now keys) [0..<length keys] (replicate (length fileUrls) [], [], s)
       = (map (afterMem now s) fileUrls, missing, s1)"
    unfolding keys_def missing_def s1_def using memPhase[of now fileUrls s] by simp
  have mk: "map (\<lambda>i. redisKey (the (snd (keys ! i)))) missing = map (\<lambda>u. redisKey (keyOf u)) lookups"
  proof -
    have "map (\<lambda>i. redisKey (the (snd (keys ! i)))) missing = map (\<lambda>i. (\<lambda>u. redisKey (keyOf u)) (fileUrls ! i)) missing"
      by (rule map_cong) (auto simp: missing_def keys_def keyOf_def)
    also have "\<dots> = map (\<lambda>u. redisKey (keyOf u)) (map ((!) fileUrls) missing)" by simp
    also have "map ((!) fileUrls) missing = lookups"
      unfolding missing_def lookups_def by (rule filter_nth_fun)
    finally show ?thesis .
  qed
  have nil: "missing = [] \<longleftrightarrow> \<not> list_ex (needsLookup now s) fileUrls"
    unfolding missing_def by (rule idx_filter_nil)
  have lnil: "lookups = [] \<longleftrightarrow> \<not> list_ex (needsLookup now s) fileUrls"
    unfolding lookups_def by (auto simp: filter_empty_conv list_ex_iff)
  show ?thesis
  proof (cases "list_ex (needsLookup now s) fileUrls")
    case False
    have "map (afterMem now s) fileUrls = map (expected E now s) fileUrls"
      using False by (intro map_cong refl expected_no_lookup) (auto simp: list_ex_iff)
    moreover have "\<not> list_ex (\<lambda>u. needsSigning E now s u \<and> presigned E now u = None) fileUrls"
      using False by (auto simp: list_ex_iff needsSigning_def)
    ultimately show ?thesis
      using False nil lnil p1
      by (simp add: batchPath_def batchOutcome_def batchState_def Let_def
          keys_def[symmetric] lookups_def[symmetric] s1_def[symmetric])
  next
    case True
    note some = True
    then have mne: "missing \<noteq> []" and lne: "lookups \<noteq> []" using nil lnil by simp_all
    show ?thesis
    proof (cases "replied E")
      case False
      have race: "raceMget E now (map (\<lambda>u. redisKey (keyOf u)) lookups) s2 = Inr None"
        using False by (simp add: raceMget_def replied_def)
      have q: "needsLookup now s = needsSigning E now s"
        using False by (auto simp: fun_eq_iff needsSigning_def distHit_def)
      have still: "missing = filter (\<lambda>i. needsSigning E now s (fileUrls ! i)) [0..<length fileUrls]"
        unfolding missing_def q ..
      have r2: "map (afterMem now s) fileUrls
           = map (\<lambda>u. if needsSigning E now s u then [] else expected E now s u) fileUrls"
        unfolding q[symmetric] using afterMem_expected[of now s _ E] by simp
      have p3: "fold (signStep E now (now + SIGNED_URL_CACHE_DURATION) keys) missing
                  (map (afterMem now s) fileUrls, [], False, s2) =
         (map (expected E now s) fileUrls,
          map (\<lambda>u. (keyOf u, the (presigned E now u), now + SIGNED_URL_CACHE_DURATION))
              (filter (\<lambda>u. needsSigning E now s u \<and> presigned E now u \<noteq> None) fileUrls),
          list_ex (\<lambda>u. needsSigning E now s u \<and> presigned E now u = None) fileUrls,
          fold (signEffect E now) (filter (needsSigning E now s) fileUrls) s2)"
        unfolding still r2 by (rule signPhase_expected[OF keys_def])
      have sg: "filter (needsSigning E now s) fileUrls = lookups"
        unfolding lookups_def q ..
      have fe: "list_ex (\<lambda>u. presigned E now u = None) lookups
           \<longleftrightarrow> list_ex (\<lambda>u. needsSigning E now s u \<and> presigned E now u = None) fileUrls"
        unfolding sg[symmetric] by (rule list_ex_filter)
      have fa: "filter (\<lambda>u. needsSigning E now s u \<and> (\<exists>y. presigned E now u = Some y)) fileUrls = lookups"
        if "\<not> list_ex (\<lambda>u. needsSigning E now s u \<and> presigned E now u = None) fileUrls"
        using filter_all_signed[OF that] sg by simp
      show ?thesis
        using mne lne some False race
        by (simp add: batchPath_def batchOutcome_def batchState_def Let_def keys_def[symmetric]
            p1 mk p3 sg s1_def[symmetric] s2_def[symmetric] lookups_def[symmetric] fe fa)
    next
      case True
      note rep = True
      define s3 where "s3 = fold (backfill now (redis s)) lookups s2"
      define signings where "signings = filter (needsSigning E now s) fileUrls"
      show ?thesis
      proof (cases "mget_rejects E")
        case True
        have race: "raceMget E now (map (\<lambda>u. redisKey (keyOf u)) lookups) s2 = Inl RedisFailure"
          using True rep by (simp add: raceMget_def replied_def)
        show ?thesis
          using mne lne some rep True race
          by (simp add: batchPath_def batchOutcome_def batchState_def Let_def keys_def[symmetric]
              p1 mk s1_def[symmetric] s2_def[symmetric] lookups_def[symmetric])
      next
        case False
        define vals where "vals = map (redisRead (redis s2) now) (map (\<lambda>u. redisKey (keyOf u)) lookups)"
        have race: "raceMget E now (map (\<lambda>u. redisKey (keyOf u)) lookups) s2 = Inr (Some vals)"
          using False rep by (simp add: raceMget_def replied_def vals_def)
        have v: "vals = map (redisRead (redis s) now) (map (\<lambda>i. redisKey (the (snd (keys ! i)))) missing)"
          unfolding vals_def mk store ..
        have q: "(\<lambda>u. needsLookup now s u \<and> storeHit now (redis s) u = None) = needsSigning E now s"
          using rep by (auto simp: fun_eq_iff needsSigning_def distHit_def)
        have r2: "map (\<lambda>u. if needsLookup now s u
                 then (case storeHit now (redis s) u of Some c \<Rightarrow> url c | None \<Rightarrow> afterMem now s u)
                 else afterMem now s u) fileUrls
             = map (\<lambda>u. if needsSigning E now s u then [] else expected E now s u) fileUrls"
          using afterRedis_expected[OF rep, of now s] by simp
        have st: "filter (\<lambda>i. needsLookup now s (fileUrls ! i) \<and> storeHit now (redis s) (fileUrls ! i) = None)
                     [0..<length fileUrls]
             = filter (\<lambda>i. needsSigning E now s (fileUrls ! i)) [0..<length fileUrls]"
          using q by (metis (mono_tags, lifting))
        have p2: "fold (redisStep now keys missing vals) [0..<length vals]
                    (map (afterMem now s) fileUrls, [], s2) =
             (map (\<lambda>u. if needsSigning E now s u then [] else expected E now s u) fileUrls,
              filter (\<lambda>i. needsSigning E now s (fileUrls ! i)) [0..<length fileUrls],
              s3)"
          using redisPhase[OF missing_def keys_def v, of s2]
          unfolding r2 st s3_def lookups_def .
        have snil: "filter (\<lambda>i. needsSigning E now s (fileUrls ! i)) [0..<length fileUrls] = []
             \<longleftrightarrow> signings = []"
          unfolding signings_def idx_filter_nil by (auto simp: filter_empty_conv list_ex_iff)
        have r2nil: "map (\<lambda>u. if needsSigning E now s u then [] else expected E now s u) fileUrls
             = map (expected E now s) fileUrls" if "signings = []"
          using that unfolding signings_def by (auto simp: filter_empty_conv)
        have p3: "fold (signStep E now (now + SIGNED_URL_CACHE_DURATION) keys)
                    (filter (\<lambda>i. needsSigning E now s (fileUrls ! i)) [0..<length fileUrls])
                  (map (\<lambda>u. if needsSigning E now s u then [] else expected E now s u) fileUrls,
                   [], False, s3) =
         (map (expected E now s) fileUrls,
          map (\<lambda>u. (keyOf u, the (presigned E now u), now + SIGNED_URL_CACHE_DURATION))
              (filter (\<lambda>u. needsSigning E now s u \<and> presigned E now u \<noteq> None) fileUrls),
          list_ex (\<lambda>u. needsSigning E now s u \<and> presigned E now u = None) fileUrls,
          fold (signEffect E now) signings s3)"
          unfolding signings_def by (rule signPhase_expected[OF keys_def])
        have fe: "list_ex (\<lambda>u. presigned E now u = None) signings
           \<longleftrightarrow> list_ex (\<lambda>u. needsSigning E now s u \<and> presigned E now u = None) fileUrls"
          unfolding signings_def by (rule list_ex_filter)
        have fa: "filter (\<lambda>u. needsSigning E now s u \<and> (\<exists>y. presigned E now u = Some y)) fileUrls = signings"
          if "\<not> list_ex (\<lambda>u. needsSigning E now s u \<and> presigned E now u = None) fileUrls"
          using filter_all_signed[OF that] signings_def by simp
        have fn: "\<not> list_ex (\<lambda>u. needsSigning E now s u \<and> presigned E now u = None) fileUrls"
          if "signings = []"
          using that unfolding signings_def by (auto simp: filter_empty_conv list_ex_iff)
        show ?thesis
          using mne lne some rep False race
          by (simp add: batchPath_def batchOutcome_def batchState_def Let_def keys_def[symmetric]
              p1 mk p2 p3 snil r2nil fn s1_def[symmetric] s2_def[symmetric] lookups_def[symmetric]
              s3_def[symmetric] signings_def[symmetric] fe fa)
      qed
    qed
  qed
qed

section \<open>The single-key resolver, the fallback and the cache invariants\<close>

lemma fst_afterMemMiss: "fst (afterMemMiss E now store k st) = missOutcome E now store k"
  by (simp add: afterMemMiss_def missOutcome_def Let_def split: option.splits)

lemma fst_single: "fst (getAuthenticatedUrl E now u s) = singleOutcome E now s u"
  by (simp add: getAuthenticatedUrl_def getSignedDownloadUrl_def singleOutcome_def resolvable_def
      memHit_def keyOf_def record_event_def fst_afterMemMiss Let_def split: option.splits)

lemma memHit_trace [simp]: "memHit now (st\<lparr>trace := t\<rparr>) u = memHit now st u"
  by (simp add: memHit_def)

lemma pendingOf_trace [simp]: "pendingOf now (st\<lparr>trace := t\<rparr>) = pendingOf now st"
  by (simp add: pendingOf_def fun_eq_iff)

lemma startResolve_closed:
  "startResolve now u st =
     (pendingOf now st u,
      st\<lparr>trace := trace st @ (if resolvable u then [MemGet (keyOf u)] else [])\<rparr>)"
  by (simp add: startResolve_def pendingOf_def resolvable_def memHit_def keyOf_def record_event_def
      Let_def split: option.splits)

lemma startAll_closed:
  "startAll now us st =
     (map (pendingOf now st) us,
      st\<lparr>trace := trace st @ map (\<lambda>u. MemGet (keyOf u)) (filter resolvable us)\<rparr>)"
  by (induction us arbitrary: st) (simp_all add: startResolve_closed)

lemma finishAll_fst:
  "fst (finishAll E now store ps st) =
     map (\<lambda>p. case p of Settled u \<Rightarrow> Inr u | Awaiting k \<Rightarrow> missOutcome E now store k) ps"
proof (induction ps arbitrary: st)
  case Nil
  show ?case by simp
next
  case (Cons p ps)
  show ?case
    using Cons.IH[of "snd (finishResolve E now store p st)"] fst_afterMemMiss[of E now store _ st]
    by (cases p) (simp_all add: split_beta)
qed

lemma fallback_fst:
  "fst (fallback E now us s) = promiseAll (map (singleOutcome E now s) us)"
proof -
  have "(\<lambda>p. case p of Settled u \<Rightarrow> Inr u | Awaiting k \<Rightarrow> missOutcome E now (redis s) k) \<circ> pendingOf now s
        = singleOutcome E now s"
    by (auto simp: fun_eq_iff pendingOf_def singleOutcome_def split: option.splits)
  then have "map (\<lambda>p. case p of Settled u \<Rightarrow> Inr u | Awaiting k \<Rightarrow> missOutcome E now (redis s) k)
                (map (pendingOf now s) us) = map (singleOutcome E now s) us"
    by (simp only: map_map)
  then show ?thesis
    using finishAll_fst[of E now "redis s" "map (pendingOf now s) us"]
    by (simp add: fallback_def startAll_closed split_beta del: map_map)
qed

lemma tiers_record_event [simp]: "tiersSatisfy P t (record_event e st) = tiersSatisfy P t st"
  by (simp add: tiersSatisfy_def record_event_def)

lemma tiers_trace [simp]: "tiersSatisfy P t (st\<lparr>trace := tr\<rparr>) = tiersSatisfy P t st"
  by (simp add: tiersSatisfy_def)

lemma tiers_memSet: "P k c \<Longrightarrow> tiersSatisfy P t st \<Longrightarrow> tiersSatisfy P t (memSet k c st)"
  by (simp add: tiersSatisfy_def memSet_def record_event_def)

lemma redisKey_inj [simp]: "redisKey k = redisKey k' \<longleftrightarrow> k = k'"
  by (simp add: redisKey_def)

lemma tiers_redisWrite:
  "P k c \<Longrightarrow> tiersSatisfy P t st \<Longrightarrow> tiersSatisfy P t (redisWrite (redisKey k) c d st)"
  by (simp add: tiersSatisfy_def redisWrite_def redisRead_def)

lemma tiers_store:
  "tiersSatisfy P t s \<Longrightarrow> \<forall>k c. redisRead (redis s) t (redisKey k) = Some (Obj c) \<longrightarrow> P k c"
  by (simp add: tiersSatisfy_def)

lemma redisValid_Some:
  "redisValid now v = Some c \<Longrightarrow> fresh now c \<and> v = Some (Obj c)"
  by (auto simp: redisValid_def split: option.splits redis_value.splits if_splits)

lemma memValid_Some: "memValid now m = Some c \<Longrightarrow> fresh now c \<and> m = Some c"
  by (auto simp: memValid_def split: option.splits if_splits)

lemma signed_entry_fresh: "fresh now \<lparr>url = u, expiresAt = now + SIGNED_URL_CACHE_DURATION\<rparr>"
  by (simp add: fresh_def SIGNED_URL_CACHE_DURATION_def SAFETY_BUFFER_MS_def)

lemma tiers_afterMemMiss:
  assumes "tiersSatisfy P t st" and "signerSatisfies P E now"
    and "\<forall>c. redisRead store now (redisKey k) = Some (Obj c) \<longrightarrow> P k c"
  shows "tiersSatisfy P t (snd (afterMemMiss E now store k st))"
proof (cases "redisValid now (redisRead store now (redisKey k))")
  case (Some c)
  then have "P k c" using redisValid_Some[OF Some] assms(3) by blast
  then show ?thesis
    using Some assms(1) by (simp add: afterMemMiss_def Let_def tiers_memSet)
next
  case None
  show ?thesis
  proof (cases "getSignedUrl E k None SIGNED_URL_EXPIRY now")
    case None
    then show ?thesis
      using \<open>redisValid now (redisRead store now (redisKey k)) = None\<close> assms(1)
      by (simp add: afterMemMiss_def Let_def)
  next
    case (Some u)
    then have p: "P k \<lparr>url = u, expiresAt = now + SIGNED_URL_CACHE_DURATION\<rparr>"
      using assms(2) by (simp add: signerSatisfies_def)
    show ?thesis
      using Some \<open>redisValid now (redisRead store now (redisKey k)) = None\<close>
      by (simp add: afterMemMiss_def Let_def tiers_memSet tiers_redisWrite p assms(1))
  qed
qed

lemma tiers_single:
  assumes "tiersSatisfy P t s" and "tiersSatisfy P now s" and "signerSatisfies P E now"
  shows "tiersSatisfy P t (snd (getAuthenticatedUrl E now u s))"
proof -
  have "tiersSatisfy P t (snd (afterMemMiss E now (redis s) k (record_event e s)))" for k e
    using tiers_afterMemMiss[of P t "record_event e s" E now "redis s" k] assms tiers_store[OF assms(2)]
    by simp
  then show ?thesis
    using assms(1)
    by (simp add: getAuthenticatedUrl_def getSignedDownloadUrl_def Let_def record_event_def
        split: option.splits)
qed

lemma storeHit_Some:
  "storeHit now store u = Some c \<Longrightarrow>
     fresh now c \<and> redisRead store now (redisKey (keyOf u)) = Some (Obj c)"
  unfolding storeHit_def by (rule redisValid_Some)

lemma memHit_Some:
  "memHit now s u = Some c \<Longrightarrow> fresh now c \<and> signedUrlCache s (keyOf u) = Some c"
  unfolding memHit_def by (rule memValid_Some)

lemma tiers_backfill:
  assumes "tiersSatisfy P t st"
    and "\<forall>k c. redisRead store now (redisKey k) = Some (Obj c) \<longrightarrow> P k c"
  shows "tiersSatisfy P t (backfill now store u st)"
proof (cases "storeHit now store u")
  case None
  then show ?thesis using assms(1) by (simp add: backfill_def)
next
  case (Some c)
  then have "P (keyOf u) c" using storeHit_Some[OF Some] assms(2) by blast
  then show ?thesis using Some assms(1) by (simp add: backfill_def tiers_memSet)
qed

lemma tiers_fold_backfill:
  assumes "\<forall>k c. redisRead store now (redisKey k) = Some (Obj c) \<longrightarrow> P k c"
  shows "tiersSatisfy P t st \<Longrightarrow> tiersSatisfy P t (fold (backfill now store) us st)"
  by (induction us arbitrary: st) (simp_all add: tiers_backfill[OF _ assms])

lemma tiers_signEffect:
  assumes "tiersSatisfy P t st" and "signerSatisfies P E now"
  shows "tiersSatisfy P t (signEffect E now u st)"
proof (cases "presigned E now u")
  case None
  then show ?thesis using assms(1) by (simp add: signEffect_def Let_def)
next
  case (Some v)
  then have "P (keyOf u) \<lparr>url = v, expiresAt = now + SIGNED_URL_CACHE_DURATION\<rparr>"
    using assms(2) by (simp add: signerSatisfies_def presigned_def)
  then show ?thesis using Some assms(1) by (simp add: signEffect_def Let_def tiers_memSet)
qed

lemma tiers_fold_signEffect:
  assumes "signerSatisfies P E now"
  shows "tiersSatisfy P t st \<Longrightarrow> tiersSatisfy P t (fold (signEffect E now) us st)"
  by (induction us arbitrary: st) (simp_all add: tiers_signEffect[OF _ assms])

lemma tiers_fold_redisWrite:
  assumes "\<forall>(rk, c, ex) \<in> set cmds. \<exists>k. rk = redisKey k \<and> P k c"
  shows "tiersSatisfy P t st \<Longrightarrow> tiersSatisfy P t (fold (\<lambda>(k, c, ex). redisWrite k c d) cmds st)"
  using assms
proof (induction cmds arbitrary: st)
  case Nil
  then show ?case by simp
next
  case (Cons cmd cmds)
  obtain rk c ex where cmd: "cmd = (rk, c, ex)" by (cases cmd)
  then obtain k where k: "rk = redisKey k" "P k c" using Cons.prems(2) by auto
  have "tiersSatisfy P t (redisWrite rk c d st)"
    using k Cons.prems(1) by (simp add: tiers_redisWrite)
  then show ?case using Cons.IH Cons.prems(2) by (simp add: cmd)
qed

lemma tiers_pipelineExec:
  assumes "tiersSatisfy P t st" and "signerSatisfies P E now"
    and "\<not> list_ex (\<lambda>u. presigned E now u = None) us"
  shows "tiersSatisfy P t (pipelineExec E now
           (map (\<lambda>u. (keyOf u, the (presigned E now u), now + SIGNED_URL_CACHE_DURATION)) us) st)"
proof -
  define cmds where "cmds = map (\<lambda>(key, u, exp). (redisKey key, \<lparr>url = u, expiresAt = exp\<rparr>,
                                            SIGNED_URL_EXPIRY - 300))
         (map (\<lambda>u. (keyOf u, the (presigned E now u), now + SIGNED_URL_CACHE_DURATION)) us)"
  have h: "\<forall>(rk, c, ex) \<in> set cmds. \<exists>k. rk = redisKey k \<and> P k c"
    using assms(2,3) unfolding cmds_def
    by (auto simp: list_ex_iff signerSatisfies_def presigned_def)
  have "tiersSatisfy P t (fold (\<lambda>(k, c, ex). redisWrite k c (ttlDeadline now)) cmds
                          (record_event (RedisPipeline cmds) st))"
    by (rule tiers_fold_redisWrite[OF h]) (simp add: assms(1))
  then show ?thesis
    using assms(1) unfolding pipelineExec_def Let_def cmds_def[symmetric]
    by simp
qed

lemma tiers_batchState:
  assumes "tiersSatisfy P t s" and "tiersSatisfy P now s" and "signerSatisfies P E now"
  shows "tiersSatisfy P t (batchState E now s us)"
  using assms
  by (simp add: batchState_def Let_def tiers_fold_backfill[OF tiers_store[OF assms(2)]]
      tiers_fold_signEffect tiers_pipelineExec)

lemma tiers_finishAll:
  assumes "signerSatisfies P E now"
    and "\<forall>k c. redisRead store now (redisKey k) = Some (Obj c) \<longrightarrow> P k c"
  shows "tiersSatisfy P t st \<Longrightarrow> tiersSatisfy P t (snd (finishAll E now store ps st))"
proof (induction ps arbitrary: st)
  case Nil
  then show ?case by simp
next
  case (Cons p ps)
  have "tiersSatisfy P t (snd (finishResolve E now store p st))"
    using Cons.prems tiers_afterMemMiss[of P t st E now store] assms
    by (cases p) simp_all
  then show ?case
    using Cons.IH by (simp add: split_beta)
qed

lemma tiers_fallback:
  assumes "tiersSatisfy P t s" and "tiersSatisfy P now s" and "signerSatisfies P E now"
  shows "tiersSatisfy P t (snd (fallback E now us s))"
  using tiers_finishAll[OF assms(3) tiers_store[OF assms(2)], of t "s\<lparr>trace := _\<rparr>"] assms(1)
  by (simp add: fallback_def startAll_closed split_beta)

lemma batch_fst:
  "fst (getAuthenticatedUrls E now us s) =
     (if us = [] then Inr []
      else (case batchOutcome E now s us of
              Inr rs \<Rightarrow> Inr rs
            | Inl e \<Rightarrow> promiseAll (map (singleOutcome E now (batchState E now s us)) us)))"
  by (simp add: getAuthenticatedUrls_def batchPath_closed fallback_fst split: sum.splits)

lemma batch_snd:
  "snd (getAuthenticatedUrls E now us s) =
     (if us = [] then s
      else (case batchOutcome E now s us of
              Inr rs \<Rightarrow> batchState E now s us
            | Inl e \<Rightarrow> snd (fallback E now us (batchState E now s us))))"
  by (simp add: getAuthenticatedUrls_def batchPath_closed split: sum.splits)

lemma tiers_batch:
  assumes "tiersSatisfy P t s" and "tiersSatisfy P now s" and "signerSatisfies P E now"
  shows "tiersSatisfy P t (snd (getAuthenticatedUrls E now us s))"
  using assms tiers_batchState[OF assms, of us]
    tiers_batchState[OF assms(2) assms(2) assms(3), of us]
    tiers_fallback[of P t "batchState E now s us" now E us]
  by (simp add: batch_snd split: sum.splits)

lemma promiseAll_Inr: "promiseAll xs = Inr rs \<Longrightarrow> xs = map Inr rs"
proof (induction xs arbitrary: rs)
  case Nil
  then show ?case by simp
next
  case (Cons x xs)
  then show ?case
    by (cases x; cases "promiseAll xs") auto
qed

lemma promiseAll_Inl: "Inl e \<in> set xs \<Longrightarrow> \<exists>e'. promiseAll xs = Inl e'"
proof (induction xs)
  case Nil
  then show ?case by simp
next
  case (Cons x xs)
  then show ?case
    by (cases x; cases "promiseAll xs") auto
qed

lemma promiseAll_map_Inr [simp]: "promiseAll (map Inr rs) = Inr rs"
  by (induction rs) simp_all

lemma served_single:
  assumes "tiersSatisfy P now s" and "signerSatisfies P E now" and "resolvable u"
    and "singleOutcome E now s u = Inr r"
  shows "\<exists>c. P (keyOf u) c \<and> fresh now c \<and> url c = r"
proof (cases "memHit now s u")
  case (Some c)
  then have "P (keyOf u) c \<and> fresh now c"
    using memHit_Some[OF Some] assms(1) by (simp add: tiersSatisfy_def)
  then show ?thesis using Some assms(3,4) by (auto simp: singleOutcome_def)
next
  case None
  note miss = None
  then have m: "missOutcome E now (redis s) (keyOf u) = Inr r"
    using assms(3,4) by (simp add: singleOutcome_def)
  show ?thesis
  proof (cases "redisValid now (redisRead (redis s) now (redisKey (keyOf u)))")
    case (Some c)
    then have "P (keyOf u) c \<and> fresh now c"
      using redisValid_Some[OF Some] assms(1) by (auto simp: tiersSatisfy_def)
    then show ?thesis using Some m by (auto simp: missOutcome_def split: if_splits)
  next
    case None
    then obtain v where v: "getSignedUrl E (keyOf u) None SIGNED_URL_EXPIRY now = Some v" "r = v"
      using m by (auto simp: missOutcome_def split: if_splits option.splits)
    then have "P (keyOf u) \<lparr>url = v, expiresAt = now + SIGNED_URL_CACHE_DURATION\<rparr>"
      using assms(2) by (simp add: signerSatisfies_def)
    then show ?thesis using v signed_entry_fresh[of now v] by auto
  qed
qed

lemma served_expected:
  assumes "tiersSatisfy P now s" and "signerSatisfies P E now" and "resolvable u"
    and "\<not> (needsSigning E now s u \<and> presigned E now u = None)"
  shows "\<exists>c. P (keyOf u) c \<and> fresh now c \<and> url c = expected E now s u"
proof (cases "memHit now s u")
  case (Some c)
  then have "P (keyOf u) c \<and> fresh now c"
    using memHit_Some[OF Some] assms(1) by (simp add: tiersSatisfy_def)
  then show ?thesis using Some assms(3) by (auto simp: expected_def)
next
  case None
  note miss = None
  show ?thesis
  proof (cases "distHit E now s u")
    case (Some c)
    then have "storeHit now (redis s) u = Some c"
      by (simp add: distHit_def split: if_splits)
    then have "P (keyOf u) c \<and> fresh now c"
      using storeHit_Some[of now "redis s" u c] assms(1) by (auto simp: tiersSatisfy_def)
    then show ?thesis using Some miss assms(3) by (auto simp: expected_def)
  next
    case None
    then obtain v where v: "presigned E now u = Some v"
      using assms(3,4) miss by (auto simp: needsSigning_def needsLookup_def)
    then have "P (keyOf u) \<lparr>url = v, expiresAt = now + SIGNED_URL_CACHE_DURATION\<rparr>"
      using assms(2) by (simp add: signerSatisfies_def presigned_def)
    then show ?thesis
      using v None miss assms(3) signed_entry_fresh[of now v] by (auto simp: expected_def)
  qed
qed

lemma served_batch:
  assumes "tiersSatisfy P now s" and "signerSatisfies P E now"
    and "getAuthenticatedUrls E now us s = (Inr rs, s')"
  shows "length rs = length us \<and>
         (\<forall>i < length us. if resolvable (us ! i)
                           then (\<exists>c. P (keyOf (us ! i)) c \<and> fresh now c \<and> url c = rs ! i)
                           else rs ! i = us ! i)"
proof (cases "us = []")
  case True
  then show ?thesis using assms(3) by (simp add: getAuthenticatedUrls_def)
next
  case False
  have f: "fst (getAuthenticatedUrls E now us s) = Inr rs" using assms(3) by simp
  show ?thesis
  proof (cases "batchOutcome E now s us")
    case (Inr xs)
    then have rs: "rs = map (expected E now s) us"
      and ok: "\<not> list_ex (\<lambda>u. needsSigning E now s u \<and> presigned E now u = None) us"
      using f False by (auto simp: batch_fst batchOutcome_def split: if_splits)
    have "\<exists>c. P (keyOf (us ! i)) c \<and> fresh now c \<and> url c = expected E now s (us ! i)"
      if "i < length us" "resolvable (us ! i)" for i
      using served_expected[OF assms(1,2) that(2)] ok that(1) by (auto simp: list_ex_iff)
    moreover have "expected E now s (us ! i) = us ! i" if "\<not> resolvable (us ! i)" for i
      using that by (simp add: expected_def)
    ultimately show ?thesis by (simp add: rs)
  next
    case (Inl e)
    let ?s1 = "batchState E now s us"
    have "promiseAll (map (singleOutcome E now ?s1) us) = Inr rs"
      using f False Inl by (simp add: batch_fst)
    then have m: "map (singleOutcome E now ?s1) us = map Inr rs" by (rule promiseAll_Inr)
    then have len: "length rs = length us" by (metis length_map)
    have nth: "singleOutcome E now ?s1 (us ! i) = Inr (rs ! i)" if "i < length us" for i
      using that m len by (metis nth_map)
    have t1: "tiersSatisfy P now ?s1" by (rule tiers_batchState[OF assms(1) assms(1) assms(2)])
    have "\<exists>c. P (keyOf (us ! i)) c \<and> fresh now c \<and> url c = rs ! i"
      if "i < length us" "resolvable (us ! i)" for i
      using served_single[OF t1 assms(2) that(2) nth[OF that(1)]] .
    moreover have "rs ! i = us ! i" if "i < length us" "\<not> resolvable (us ! i)" for i
      using nth[OF that(1)] that(2) by (simp add: singleOutcome_def)
    ultimately show ?thesis using len by simp
  qed
qed

section \<open>Properties\<close>

lemmas single_defs = getAuthenticatedUrl_def getSignedDownloadUrl_def afterMemMiss_def
  memSet_def record_event_def redisWrite_def memValid_def redisValid_def Let_def

lemmas demo_defs = demoEnv_def emptyState_def warmState_def

subsection \<open>The attachment variant\<close>

lemma attachment_call:
  "signedUrlCache (snd (getSignedDownloadUrlForAttachment E now fileKey fileName s)) = signedUrlCache s \<and>
   redis (snd (getSignedDownloadUrlForAttachment E now fileKey fileName s)) = redis s \<and>
   trace (snd (getSignedDownloadUrlForAttachment E now fileKey fileName s)) =
     trace s @ [SignAttachment fileKey fileName 3600]"
  by (simp add: getSignedDownloadUrlForAttachment_def record_event_def Let_def split: option.splits)

text \<open>
  C9. Whatever the key, the file name and the number of calls, the attachment variant
  only calls the presigner: after any run of calls both cache tiers hold what they held
  before, and the trace has grown by one presigner call per call and by nothing else, so
  no cache tier was read or written. Each call returns what the presigner returned.
\<close>

theorem attachment_bypasses_caches:
  "signedUrlCache (attachmentCalls E cs s) = signedUrlCache s \<and>
   redis (attachmentCalls E cs s) = redis s \<and>
   trace (attachmentCalls E cs s) =
     trace s @ map (\<lambda>(now, fileKey, fileName). SignAttachment fileKey fileName 3600) cs \<and>
   fst (getSignedDownloadUrlForAttachment E now fileKey fileName s) =
     (case getSignedUrl E fileKey (Some (disposition fileName)) 3600 now of
        None \<Rightarrow> Inl SignerFailure | Some u \<Rightarrow> Inr u)"
proof -
  have "signedUrlCache (attachmentCalls E cs s) = signedUrlCache s \<and>
        redis (attachmentCalls E cs s) = redis s \<and>
        trace (attachmentCalls E cs s) =
          trace s @ map (\<lambda>(now, fileKey, fileName). SignAttachment fileKey fileName 3600) cs"
  proof (induction cs arbitrary: s)
    case Nil
    show ?case by simp
  next
    case (Cons c cs)
    obtain t k f where c: "c = (t, k, f)" by (cases c)
    show ?case
      using Cons.IH[of "snd (getSignedDownloadUrlForAttachment E t k f s)"] attachment_call[of E t k f s]
      by (simp add: c)
  qed
  moreover have "fst (getSignedDownloadUrlForAttachment E now fileKey fileName s) =
     (case getSignedUrl E fileKey (Some (disposition fileName)) 3600 now of
        None \<Rightarrow> Inl SignerFailure | Some u \<Rightarrow> Inr u)"
    by (simp add: getSignedDownloadUrlForAttachment_def Let_def split: option.splits)
  ultimately show ?thesis by simp
qed

theorem attachment_bypasses_caches_witness:
  "signedUrlCache (attachmentCalls demoEnv [(0, ''a.jpg'', ''x.jpg''), (7, ''a.jpg'', ''x.jpg'')] warmState)
     = signedUrlCache warmState \<and>
   redis (attachmentCalls demoEnv [(0, ''a.jpg'', ''x.jpg''), (7, ''a.jpg'', ''x.jpg'')] warmState)
     = redis warmState \<and>
   trace (attachmentCalls demoEnv [(0, ''a.jpg'', ''x.jpg''), (7, ''a.jpg'', ''x.jpg'')] warmState)
     = [SignAttachment ''a.jpg'' ''x.jpg'' 3600, SignAttachment ''a.jpg'' ''x.jpg'' 3600] \<and>
   fst (getSignedDownloadUrlForAttachment demoEnv 0 ''a.jpg'' ''x.jpg'' warmState)
     = Inr ''https://r2/a.jpg?X-Amz-Expires=3600''"
  using attachment_bypasses_caches[of demoEnv "[(0, ''a.jpg'', ''x.jpg''), (7, ''a.jpg'', ''x.jpg'')]"
      warmState 0 "''a.jpg''" "''x.jpg''"]
  by (simp add: demo_defs)

subsection \<open>Opaque references and valid locators\<close>



lemma parse_logo: "parseR2Url ''https://cdn.example.com/logo.png'' = None"
  by (simp add: parseR2Url_def startsWith_def matchHere_def)

lemma parse_a: "parseR2Url ''r2://bucket/a.jpg'' = Some ''a.jpg''"
  by (simp add: parseR2Url_def startsWith_def)




lemma signCalls_append [simp]: "signCalls (xs @ ys) = signCalls xs + signCalls ys"
  by (simp add: signCalls_def)

lemma signCalls_simps [simp]:
  "signCalls [] = 0" "signCalls (e # es) = (if isSign e then 1 else 0) + signCalls es"
  by (simp_all add: signCalls_def)

subsection \<open>Two calls inside the validity window\<close>

text \<open>
  C7. Let a call of \<open>getAuthenticatedUrl\<close> on a reference with a truthy key return
  the URL \<open>u\<close>. Then the memory cache holds an entry for the key with that URL, and
  the call made at most one presigner call (when it made one, the entry expires 50
  minutes after the call). A second call at any instant \<open>now2\<close> at which that entry
  still passes the expiry check, in any environment, returns the same URL and adds only
  the read of the memory cache to the trace: no presigner call and no Redis command.
  So the two calls together make at most one presigner call.
\<close>

theorem resolve_twice_signs_once:
  assumes "resolvable fileUrl" and "getAuthenticatedUrl E1 now1 fileUrl s = (Inr u, s1)"
  shows "\<exists>c. signedUrlCache s1 (keyOf fileUrl) = Some c \<and> url c = u \<and>
             signCalls (trace s1) \<le> signCalls (trace s) + 1 \<and>
             (signCalls (trace s1) = signCalls (trace s) + 1 \<longrightarrow>
                expiresAt c = now1 + SIGNED_URL_CACHE_DURATION) \<and>
             (fresh now2 c \<longrightarrow>
                getAuthenticatedUrl E2 now2 fileUrl s1 =
                  (Inr u, record_event (MemGet (keyOf fileUrl)) s1))"
proof (cases "memValid now1 (signedUrlCache s (keyOf fileUrl))")
  case (Some c)
  then have c: "signedUrlCache s (keyOf fileUrl) = Some c" using memValid_Some by blast
  have r: "u = url c" "s1 = record_event (MemGet (keyOf fileUrl)) s"
    using assms Some
    by (auto simp: getAuthenticatedUrl_def getSignedDownloadUrl_def resolvable_def keyOf_def
        record_event_def Let_def)
  show ?thesis
    using assms(1) c r
    by (auto simp: getAuthenticatedUrl_def getSignedDownloadUrl_def resolvable_def keyOf_def
        record_event_def memValid_def Let_def)
next
  case None
  note miss = None
  then have a: "afterMemMiss E1 now1 (redis s) (keyOf fileUrl) (record_event (MemGet (keyOf fileUrl)) s)
        = (Inr u, s1)"
    using assms
    by (auto simp: getAuthenticatedUrl_def getSignedDownloadUrl_def resolvable_def keyOf_def
        record_event_def Let_def)
  show ?thesis
  proof (cases "redisValid now1 (redisRead (redis s) now1 (redisKey (keyOf fileUrl)))")
    case (Some c)
    then have r: "u = url c"
      "s1 = memSet (keyOf fileUrl) c (record_event (RedisGet (redisKey (keyOf fileUrl)))
               (record_event (MemGet (keyOf fileUrl)) s))"
      using a by (auto simp: afterMemMiss_def Let_def record_event_def split: if_splits)
    show ?thesis
      using assms(1) r
      by (auto simp: getAuthenticatedUrl_def getSignedDownloadUrl_def resolvable_def keyOf_def
          record_event_def memSet_def memValid_def Let_def)
  next
    case None
    then obtain v where v: "getSignedUrl E1 (keyOf fileUrl) None SIGNED_URL_EXPIRY now1 = Some v"
      using a by (auto simp: afterMemMiss_def Let_def split: if_splits option.splits)
    let ?c = "\<lparr>url = v, expiresAt = now1 + SIGNED_URL_CACHE_DURATION\<rparr>"
    have r: "u = v"
      "signedUrlCache s1 (keyOf fileUrl) = Some ?c"
      "signCalls (trace s1) = signCalls (trace s) + 1"
      using a v None
      by (auto simp: afterMemMiss_def Let_def record_event_def memSet_def redisWrite_def
          split: if_splits)
    show ?thesis
      using assms(1) r
      by (auto simp: getAuthenticatedUrl_def getSignedDownloadUrl_def resolvable_def keyOf_def
          record_event_def memValid_def Let_def)
  qed
qed

lemma resolvable_a: "resolvable ''r2://bucket/a.jpg''" "keyOf ''r2://bucket/a.jpg'' = ''a.jpg''"
  by (simp_all add: resolvable_def keyOf_def parse_a falsy_def)

lemmas const_defs = SIGNED_URL_CACHE_DURATION_def SIGNED_URL_EXPIRY_def SAFETY_BUFFER_MS_def
  MGET_TIMEOUT_MS_def

lemma cold_resolve_demo:
  "getAuthenticatedUrl demoEnv 0 ''r2://bucket/a.jpg'' emptyState =
     (Inr ''https://r2/a.jpg?X-Amz-Expires=3600'',
      \<lparr>signedUrlCache = [''a.jpg'' \<mapsto> \<lparr>url = ''https://r2/a.jpg?X-Amz-Expires=3600'', expiresAt = 3000000\<rparr>],
       redis = [''signed_url:a.jpg'' \<mapsto>
                  (Obj \<lparr>url = ''https://r2/a.jpg?X-Amz-Expires=3600'', expiresAt = 3000000\<rparr>, 3300000)],
       trace = [MemGet ''a.jpg'', RedisGet ''signed_url:a.jpg'', Sign ''a.jpg'' 3600,
                MemSet ''a.jpg'' \<lparr>url = ''https://r2/a.jpg?X-Amz-Expires=3600'', expiresAt = 3000000\<rparr>,
                RedisSet ''signed_url:a.jpg''
                  \<lparr>url = ''https://r2/a.jpg?X-Amz-Expires=3600'', expiresAt = 3000000\<rparr> 3300]\<rparr>)"
  by (simp add: single_defs parse_a falsy_def demo_defs redisRead_def redisKey_def ttlDeadline_def
      const_defs)

theorem resolve_twice_signs_once_witness:
  "fst (getAuthenticatedUrl demoEnv 0 ''r2://bucket/a.jpg'' emptyState)
     = Inr ''https://r2/a.jpg?X-Amz-Expires=3600'' \<and>
   getAuthenticatedUrl demoEnv 60000 ''r2://bucket/a.jpg''
       (snd (getAuthenticatedUrl demoEnv 0 ''r2://bucket/a.jpg'' emptyState))
     = (Inr ''https://r2/a.jpg?X-Amz-Expires=3600'',
        record_event (MemGet ''a.jpg'') (snd (getAuthenticatedUrl demoEnv 0 ''r2://bucket/a.jpg'' emptyState)))"
proof -
  define s1 where "s1 = snd (getAuthenticatedUrl demoEnv 0 ''r2://bucket/a.jpg'' emptyState)"
  have first: "getAuthenticatedUrl demoEnv 0 ''r2://bucket/a.jpg'' emptyState
      = (Inr ''https://r2/a.jpg?X-Amz-Expires=3600'', s1)"
    unfolding s1_def by (simp add: cold_resolve_demo)
  have mem: "signedUrlCache s1 ''a.jpg''
      = Some \<lparr>url = ''https://r2/a.jpg?X-Amz-Expires=3600'', expiresAt = 3000000\<rparr>"
    unfolding s1_def by (simp add: cold_resolve_demo)
  have "\<exists>c. signedUrlCache s1 (keyOf ''r2://bucket/a.jpg'') = Some c \<and>
             url c = ''https://r2/a.jpg?X-Amz-Expires=3600'' \<and>
             signCalls (trace s1) \<le> signCalls (trace emptyState) + 1 \<and>
             (signCalls (trace s1) = signCalls (trace emptyState) + 1 \<longrightarrow>
                expiresAt c = 0 + SIGNED_URL_CACHE_DURATION) \<and>
             (fresh 60000 c \<longrightarrow>
                getAuthenticatedUrl demoEnv 60000 ''r2://bucket/a.jpg'' s1 =
                  (Inr ''https://r2/a.jpg?X-Amz-Expires=3600'',
                   record_event (MemGet (keyOf ''r2://bucket/a.jpg'')) s1))"
    by (rule resolve_twice_signs_once[OF resolvable_a(1) first])
  then obtain c where c: "signedUrlCache s1 (keyOf ''r2://bucket/a.jpg'') = Some c"
    and w: "fresh 60000 c \<longrightarrow>
       getAuthenticatedUrl demoEnv 60000 ''r2://bucket/a.jpg'' s1 =
         (Inr ''https://r2/a.jpg?X-Amz-Expires=3600'',
          record_event (MemGet (keyOf ''r2://bucket/a.jpg'')) s1)"
    by (elim exE conjE)
  have "c = \<lparr>url = ''https://r2/a.jpg?X-Amz-Expires=3600'', expiresAt = 3000000\<rparr>"
    using c mem by (simp only: resolvable_a option.inject)
  then have "fresh 60000 c" by (simp add: fresh_def const_defs)
  then have "getAuthenticatedUrl demoEnv 60000 ''r2://bucket/a.jpg'' s1 =
         (Inr ''https://r2/a.jpg?X-Amz-Expires=3600'',
          record_event (MemGet (keyOf ''r2://bucket/a.jpg'')) s1)"
    using w by (rule rev_mp)
  then show ?thesis
    unfolding s1_def[symmetric] resolvable_a using first by (simp only: fst_conv simp_thms)
qed

subsection \<open>Rejected Redis commands\<close>

lemma parse_b: "parseR2Url ''r2://bucket/b.jpg'' = Some ''b.jpg''"
  by (simp add: parseR2Url_def startsWith_def)

lemma resolvable_b: "resolvable ''r2://bucket/b.jpg''" "keyOf ''r2://bucket/b.jpg'' = ''b.jpg''"
  by (simp_all add: resolvable_def keyOf_def parse_b falsy_def)

lemmas closed_defs = batchOutcome_def batchState_def expected_def needsLookup_def needsSigning_def
  memHit_def distHit_def storeHit_def replied_def presigned_def singleOutcome_def missOutcome_def
  memValid_def redisValid_def redisRead_def redisKey_def

text \<open>
  C1. In \<open>getSignedDownloadUrl\<close> both \<open>redis.get\<close> and \<open>redis.set\<close> are
  awaited inside the \<open>try\<close> whose \<open>catch\<close> rethrows, so their rejection is the
  result of the call: on a cold key, with \<open>GET\<close> rejecting the call fails before
  any presigner call, and with \<open>SET\<close> rejecting it fails although the URL was
  signed. When the bulk read rejects, the batch resolver falls back to the single-key
  path, whose \<open>GET\<close> rejecting fails the batch. Only the rejection of the pipelined
  write is swallowed (last conjunct).
\<close>

theorem redis_failure_reaches_caller:
  "fst (getAuthenticatedUrl (demoEnv\<lparr>get_rejects := \<lambda>_. True\<rparr>) 0 ''r2://bucket/a.jpg'' emptyState)
     = Inl RedisFailure \<and>
   fst (getAuthenticatedUrl (demoEnv\<lparr>set_rejects := \<lambda>_. True\<rparr>) 0 ''r2://bucket/a.jpg'' emptyState)
     = Inl RedisFailure \<and>
   fst (getAuthenticatedUrls (demoEnv\<lparr>mget_rejects := True, get_rejects := \<lambda>_. True\<rparr>) 0
          [''r2://bucket/a.jpg''] emptyState)
     = Inl RedisFailure \<and>
   fst (getAuthenticatedUrls (demoEnv\<lparr>pipeline_rejects := True\<rparr>) 0 [''r2://bucket/a.jpg''] emptyState)
     = Inr [''https://r2/a.jpg?X-Amz-Expires=3600'']"
proof (intro conjI)
  show "fst (getAuthenticatedUrl (demoEnv\<lparr>get_rejects := \<lambda>_. True\<rparr>) 0 ''r2://bucket/a.jpg'' emptyState)
     = Inl RedisFailure"
    by (simp add: fst_single closed_defs resolvable_a demo_defs const_defs)
  show "fst (getAuthenticatedUrl (demoEnv\<lparr>set_rejects := \<lambda>_. True\<rparr>) 0 ''r2://bucket/a.jpg'' emptyState)
     = Inl RedisFailure"
    by (simp add: fst_single closed_defs resolvable_a demo_defs const_defs)
  show "fst (getAuthenticatedUrls (demoEnv\<lparr>mget_rejects := True, get_rejects := \<lambda>_. True\<rparr>) 0
          [''r2://bucket/a.jpg''] emptyState) = Inl RedisFailure"
    by (simp add: batch_fst closed_defs resolvable_a demo_defs const_defs Let_def record_event_def)
  show "fst (getAuthenticatedUrls (demoEnv\<lparr>pipeline_rejects := True\<rparr>) 0 [''r2://bucket/a.jpg''] emptyState)
     = Inr [''https://r2/a.jpg?X-Amz-Expires=3600'']"
    by (simp add: batch_fst closed_defs resolvable_a demo_defs const_defs Let_def)
qed

section \<open>Presigner calls in the trace\<close>

lemma signKeys_append [simp]: "signKeys (xs @ ys) = signKeys xs @ signKeys ys"
  by (induction xs rule: signKeys.induct) simp_all

lemma sk_record_event: "signKeys (trace (record_event e st)) = signKeys (trace st) @ signKeys [e]"
  by (simp add: record_event_def)

lemma sk_trace_upd [simp]: "trace (st\<lparr>trace := tr\<rparr>) = tr"
  by simp

lemma sk_memSet [simp]: "signKeys (trace (memSet k c st)) = signKeys (trace st)"
  by (simp add: memSet_def record_event_def)

lemma trace_redisWrite [simp]: "trace (redisWrite k c d st) = trace st"
  by (simp add: redisWrite_def)

lemma sk_backfill [simp]: "signKeys (trace (backfill now store u st)) = signKeys (trace st)"
  by (simp add: backfill_def split: option.splits)

lemma sk_fold_backfill [simp]:
  "signKeys (trace (fold (backfill now store) us st)) = signKeys (trace st)"
  by (induction us arbitrary: st) simp_all

lemma sk_signEffect [simp]:
  "signKeys (trace (signEffect E now u st)) = signKeys (trace st) @ [keyOf u]"
  by (simp add: signEffect_def Let_def record_event_def split: option.splits)

lemma sk_fold_signEffect [simp]:
  "signKeys (trace (fold (signEffect E now) us st)) = signKeys (trace st) @ map keyOf us"
  by (induction us arbitrary: st) simp_all

lemma trace_fold_redisWrite [simp]:
  "trace (fold (\<lambda>(k, c, ex). redisWrite k c d) cmds st) = trace st"
  by (induction cmds arbitrary: st) (simp_all add: split_beta)

lemma sk_pipelineExec [simp]: "signKeys (trace (pipelineExec E now sr st)) = signKeys (trace st)"
  by (simp add: pipelineExec_def Let_def record_event_def)

lemma sk_batchState:
  "signKeys (trace (batchState E now s us)) =
     signKeys (trace s) @
     (if replied E \<and> mget_rejects E then [] else map keyOf (filter (needsSigning E now s) us))"
proof -
  have mg: "signKeys (map (\<lambda>u. MemGet (keyOf u)) xs) = []" for xs
    by (induction xs) simp_all
  have nil: "filter (needsSigning E now s) us = []" if "filter (needsLookup now s) us = []"
    using that by (auto simp: filter_empty_conv needsSigning_def)
  show ?thesis
    by (auto simp: batchState_def Let_def record_event_def mg nil)
qed

lemma sk_afterMemMiss:
  "signKeys (trace (snd (afterMemMiss E now store k st))) =
     signKeys (trace st) @
     (if \<not> get_rejects E (redisKey k) \<and> redisValid now (redisRead store now (redisKey k)) = None
      then [k] else [])"
  by (simp add: afterMemMiss_def Let_def record_event_def split: option.splits)

lemma sk_single:
  "signKeys (trace (snd (getAuthenticatedUrl E now u s))) =
     signKeys (trace s) @
     (if cold now s u \<and> \<not> get_rejects E (redisKey (keyOf u)) then [keyOf u] else [])"
  by (simp add: getAuthenticatedUrl_def getSignedDownloadUrl_def Let_def sk_afterMemMiss
      sk_record_event cold_def resolvable_def memHit_def storeHit_def keyOf_def record_event_def
      split: option.splits)

lemma sk_finishAll:
  "signKeys (trace (snd (finishAll E now store ps st))) =
     signKeys (trace st) @
     concat (map (\<lambda>p. case p of Settled u \<Rightarrow> []
                       | Awaiting k \<Rightarrow>
                           (if \<not> get_rejects E (redisKey k) \<and>
                               redisValid now (redisRead store now (redisKey k)) = None
                            then [k] else [])) ps)"
proof (induction ps arbitrary: st)
  case Nil
  show ?case by simp
next
  case (Cons p ps)
  show ?case
    using Cons.IH[of "snd (finishResolve E now store p st)"] sk_afterMemMiss[of E now store _ st]
    by (cases p) (simp_all add: split_beta)
qed

lemma sk_fallback:
  "signKeys (trace (snd (fallback E now us s))) =
     signKeys (trace s) @
     concat (map (\<lambda>u. if cold now s u \<and> \<not> get_rejects E (redisKey (keyOf u)) then [keyOf u] else []) us)"
proof -
  have mg: "signKeys (map (\<lambda>u. MemGet (keyOf u)) xs) = []" for xs
    by (induction xs) simp_all
  have "(\<lambda>p. case p of Settled u \<Rightarrow> []
                       | Awaiting k \<Rightarrow>
                           (if \<not> get_rejects E (redisKey k) \<and>
                               redisValid now (redisRead (redis s) now (redisKey k)) = None
                            then [k] else [])) \<circ> pendingOf now s
        = (\<lambda>u. if cold now s u \<and> \<not> get_rejects E (redisKey (keyOf u)) then [keyOf u] else [])"
    by (auto simp: fun_eq_iff pendingOf_def cold_def storeHit_def split: option.splits)
  then show ?thesis
    by (simp add: fallback_def startAll_closed split_beta sk_finishAll mg)
qed

section \<open>Expiry\<close>

lemma tiers_provenance: "tiersSatisfy (provenance E now s) now s"
  by (simp add: tiersSatisfy_def provenance_def)

lemma signer_provenance: "signerSatisfies (provenance E now s) E now"
  by (simp add: signerSatisfies_def provenance_def)

lemma cold_served:
  assumes "cold now s u" and "provenance E now s (keyOf u) c" and "fresh now c"
  shows "getSignedUrl E (keyOf u) None SIGNED_URL_EXPIRY now = Some (url c)"
  using assms
  by (auto simp: cold_def provenance_def memHit_def storeHit_def memValid_def redisValid_def)

lemma cold_single_Inr:
  assumes "cold now s u" and "singleOutcome E now s u = Inr r"
  shows "\<not> get_rejects E (redisKey (keyOf u))"
  using assms by (auto simp: cold_def singleOutcome_def missOutcome_def split: if_splits)

lemma cold_needsSigning: "cold now s u \<Longrightarrow> needsSigning E now s u"
  by (simp add: cold_def needsSigning_def needsLookup_def distHit_def)

lemma batchState_rejected:
  assumes "list_ex (needsLookup now s) us" and "replied E" and "mget_rejects E"
  shows "signedUrlCache (batchState E now s us) = signedUrlCache s \<and>
         redis (batchState E now s us) = redis s"
proof -
  have "filter (needsLookup now s) us \<noteq> []"
    using assms(1) by (auto simp: filter_empty_conv list_ex_iff)
  then show ?thesis
    by (simp add: batchState_def Let_def record_event_def assms(2,3))
qed

lemma singleOutcome_cong:
  assumes "signedUrlCache s1 = signedUrlCache s" and "redis s1 = redis s"
  shows "singleOutcome E now s1 = singleOutcome E now s"
  by (rule ext) (simp add: singleOutcome_def memHit_def assms split: option.splits)

lemma cold_cong:
  assumes "signedUrlCache s1 = signedUrlCache s" and "redis s1 = redis s"
  shows "cold now s1 = cold now s"
  by (rule ext) (simp add: cold_def memHit_def assms)

lemma batch_signs_cold:
  assumes "getAuthenticatedUrls E now us s = (Inr rs, s')" and "u \<in> set us" and "cold now s u"
  shows "\<exists>ks. signKeys (trace s') = signKeys (trace s) @ ks \<and> keyOf u \<in> set ks"
proof -
  have ne: "us \<noteq> []" using assms(2) by auto
  have f: "fst (getAuthenticatedUrls E now us s) = Inr rs"
    and s': "s' = snd (getAuthenticatedUrls E now us s)" using assms(1) by simp_all
  have look: "list_ex (needsLookup now s) us"
    using assms(2,3) by (auto simp: list_ex_iff cold_def needsLookup_def)
  let ?A = "map keyOf (filter (needsSigning E now s) us)"
  let ?B = "concat (map (\<lambda>u. if cold now (batchState E now s us) u \<and>
                                \<not> get_rejects E (redisKey (keyOf u)) then [keyOf u] else []) us)"
  have sg: "keyOf u \<in> set ?A"
    using assms(2) cold_needsSigning[OF assms(3)] by simp
  show ?thesis
  proof (cases "replied E \<and> mget_rejects E")
    case False
    then have b: "signKeys (trace (batchState E now s us)) = signKeys (trace s) @ ?A"
      by (auto simp: sk_batchState)
    show ?thesis
    proof (cases "batchOutcome E now s us")
      case (Inr xs)
      then have "signKeys (trace s') = signKeys (trace s) @ ?A"
        using b ne by (simp add: s' batch_snd)
      then show ?thesis using sg by blast
    next
      case (Inl e)
      then have "signKeys (trace s') = signKeys (trace s) @ (?A @ ?B)"
        using b ne by (simp add: s' batch_snd sk_fallback)
      moreover have "keyOf u \<in> set (?A @ ?B)" using sg by simp
      ultimately show ?thesis by blast
    qed
  next
    case True
    let ?s1 = "batchState E now s us"
    have out: "batchOutcome E now s us = Inl RedisFailure"
      using True look by (simp add: batchOutcome_def)
    have same: "signedUrlCache ?s1 = signedUrlCache s" "redis ?s1 = redis s"
      using batchState_rejected[OF look, of E] True by simp_all
    have "promiseAll (map (singleOutcome E now ?s1) us) = Inr rs"
      using f ne out by (simp add: batch_fst)
    then have "map (singleOutcome E now ?s1) us = map Inr rs" by (rule promiseAll_Inr)
    then have pm: "map (singleOutcome E now s) us = map Inr rs"
      by (simp only: singleOutcome_cong[OF same])
    have "singleOutcome E now s u \<in> set (map (singleOutcome E now s) us)"
      using assms(2) by simp
    then have "singleOutcome E now s u \<in> set (map Inr rs)" by (simp only: pm)
    then obtain r where "singleOutcome E now s u = Inr r" by auto
    then have g: "\<not> get_rejects E (redisKey (keyOf u))"
      using cold_single_Inr[OF assms(3)] by blast
    have "keyOf u \<in> set ?B"
      using assms(2,3) g by (simp only: cold_cong[OF same]) auto
    moreover have "signKeys (trace s') = signKeys (trace s) @ ?B"
      using True ne out by (simp add: s' batch_snd sk_fallback sk_batchState)
    ultimately show ?thesis by blast
  qed
qed

lemma stale_is_cold:
  assumes "resolvable u"
    and "\<forall>c. signedUrlCache s (keyOf u) = Some c \<longrightarrow> expiresAt c \<le> now + SAFETY_BUFFER_MS"
    and "\<forall>c. redisRead (redis s) now (redisKey (keyOf u)) = Some (Obj c) \<longrightarrow>
             expiresAt c \<le> now + SAFETY_BUFFER_MS"
  shows "cold now s u"
  using assms
  by (auto simp: cold_def memHit_def storeHit_def memValid_def redisValid_def fresh_def
      split: option.splits redis_value.splits)

lemma served_single_call:
  assumes "resolvable u" and "getAuthenticatedUrl E now u s = (Inr r, s')"
  shows "\<exists>c. provenance E now s (keyOf u) c \<and> now + SAFETY_BUFFER_MS < expiresAt c \<and> url c = r"
proof -
  have "singleOutcome E now s u = Inr r" using assms(2) fst_single[of E now u s] by simp
  from served_single[OF tiers_provenance signer_provenance assms(1) this]
  show ?thesis by (auto simp: fresh_def)
qed

lemma cold_single_call:
  assumes "cold now s u" and "getAuthenticatedUrl E now u s = (Inr r, s')"
  shows "getSignedUrl E (keyOf u) None SIGNED_URL_EXPIRY now = Some r \<and>
         signKeys (trace s') = signKeys (trace s) @ [keyOf u]"
proof -
  have o: "singleOutcome E now s u = Inr r" using assms(2) fst_single[of E now u s] by simp
  have s': "s' = snd (getAuthenticatedUrl E now u s)" using assms(2) by simp
  have "\<not> get_rejects E (redisKey (keyOf u))" by (rule cold_single_Inr[OF assms(1) o])
  then have "signKeys (trace s') = signKeys (trace s) @ [keyOf u]"
    using assms(1) by (simp add: s' sk_single)
  moreover have "getSignedUrl E (keyOf u) None SIGNED_URL_EXPIRY now = Some r"
    using o assms(1)
    by (auto simp: cold_def singleOutcome_def missOutcome_def storeHit_def
        split: if_splits option.splits)
  ultimately show ?thesis by simp
qed

text \<open>
  C2. Every URL that \<open>getAuthenticatedUrl\<close> or \<open>getAuthenticatedUrls\<close> returns
  for a reference with a truthy key is the URL of an entry \<open>c\<close> with
  \<open>now + SAFETY_BUFFER_MS < expiresAt c\<close>, and \<open>c\<close> is the entry of the memory
  cache, the entry read from Redis, or the entry built from a presigner call of this
  instant. So an entry with \<open>expiresAt \<le> now + SAFETY_BUFFER_MS\<close> is never what a
  tier serves: when the entries of both tiers for the key are such (or absent), the URL
  returned is the presigner's and the trace has a new presigner call for the key.
\<close>

theorem expired_entries_never_served:
  "(resolvable fileUrl \<and> getAuthenticatedUrl E now fileUrl s = (Inr r, s') \<longrightarrow>
      (\<exists>c. provenance E now s (keyOf fileUrl) c \<and> now + SAFETY_BUFFER_MS < expiresAt c \<and> url c = r) \<and>
      ((\<forall>c. signedUrlCache s (keyOf fileUrl) = Some c \<longrightarrow> expiresAt c \<le> now + SAFETY_BUFFER_MS) \<and>
       (\<forall>c. redisRead (redis s) now (redisKey (keyOf fileUrl)) = Some (Obj c) \<longrightarrow>
              expiresAt c \<le> now + SAFETY_BUFFER_MS) \<longrightarrow>
         getSignedUrl E (keyOf fileUrl) None SIGNED_URL_EXPIRY now = Some r \<and>
         signKeys (trace s') = signKeys (trace s) @ [keyOf fileUrl]))
   \<and> (getAuthenticatedUrls E now fileUrls s = (Inr rs, t') \<and> i < length fileUrls \<and>
       resolvable (fileUrls ! i) \<longrightarrow>
      (\<exists>c. provenance E now s (keyOf (fileUrls ! i)) c \<and> now + SAFETY_BUFFER_MS < expiresAt c \<and>
           url c = rs ! i) \<and>
      ((\<forall>c. signedUrlCache s (keyOf (fileUrls ! i)) = Some c \<longrightarrow> expiresAt c \<le> now + SAFETY_BUFFER_MS) \<and>
       (\<forall>c. redisRead (redis s) now (redisKey (keyOf (fileUrls ! i))) = Some (Obj c) \<longrightarrow>
              expiresAt c \<le> now + SAFETY_BUFFER_MS) \<longrightarrow>
         getSignedUrl E (keyOf (fileUrls ! i)) None SIGNED_URL_EXPIRY now = Some (rs ! i) \<and>
         (\<exists>ks. signKeys (trace t') = signKeys (trace s) @ ks \<and> keyOf (fileUrls ! i) \<in> set ks)))"
proof (intro conjI impI)
  assume a: "resolvable fileUrl \<and> getAuthenticatedUrl E now fileUrl s = (Inr r, s')"
  then show "\<exists>c. provenance E now s (keyOf fileUrl) c \<and> now + SAFETY_BUFFER_MS < expiresAt c \<and> url c = r"
    using served_single_call by blast
  assume "(\<forall>c. signedUrlCache s (keyOf fileUrl) = Some c \<longrightarrow> expiresAt c \<le> now + SAFETY_BUFFER_MS) \<and>
       (\<forall>c. redisRead (redis s) now (redisKey (keyOf fileUrl)) = Some (Obj c) \<longrightarrow>
              expiresAt c \<le> now + SAFETY_BUFFER_MS)"
  then have c: "cold now s fileUrl" using a stale_is_cold by blast
  show "getSignedUrl E (keyOf fileUrl) None SIGNED_URL_EXPIRY now = Some r"
    using cold_single_call[OF c] a by blast
  show "signKeys (trace s') = signKeys (trace s) @ [keyOf fileUrl]"
    using cold_single_call[OF c] a by blast
next
  assume a: "getAuthenticatedUrls E now fileUrls s = (Inr rs, t') \<and> i < length fileUrls \<and>
       resolvable (fileUrls ! i)"
  then have b: "getAuthenticatedUrls E now fileUrls s = (Inr rs, t')" and i: "i < length fileUrls"
    and r: "resolvable (fileUrls ! i)" by simp_all
  have sv: "\<exists>c. provenance E now s (keyOf (fileUrls ! i)) c \<and> fresh now c \<and> url c = rs ! i"
    using served_batch[OF tiers_provenance signer_provenance b] i r by simp
  then show "\<exists>c. provenance E now s (keyOf (fileUrls ! i)) c \<and> now + SAFETY_BUFFER_MS < expiresAt c \<and>
           url c = rs ! i"
    by (auto simp: fresh_def)
  assume "(\<forall>c. signedUrlCache s (keyOf (fileUrls ! i)) = Some c \<longrightarrow> expiresAt c \<le> now + SAFETY_BUFFER_MS) \<and>
       (\<forall>c. redisRead (redis s) now (redisKey (keyOf (fileUrls ! i))) = Some (Obj c) \<longrightarrow>
              expiresAt c \<le> now + SAFETY_BUFFER_MS)"
  then have c: "cold now s (fileUrls ! i)" using r stale_is_cold by blast
  show "getSignedUrl E (keyOf (fileUrls ! i)) None SIGNED_URL_EXPIRY now = Some (rs ! i)"
    using sv cold_served[OF c] by auto
  show "\<exists>ks. signKeys (trace t') = signKeys (trace s) @ ks \<and> keyOf (fileUrls ! i) \<in> set ks"
    using batch_signs_cold[OF b _ c] i by simp
qed

lemma stale_resolve_demo:
  "fst (getAuthenticatedUrl demoEnv 1800000 ''r2://bucket/a.jpg'' warmState)
     = Inr ''https://r2/a.jpg?X-Amz-Expires=3600''"
  by (simp add: fst_single closed_defs resolvable_a demo_defs const_defs fresh_def)

lemma batch_demo:
  "fst (getAuthenticatedUrls demoEnv 1800000 [''r2://bucket/a.jpg'', ''r2://bucket/b.jpg''] warmState)
     = Inr [''https://r2/a.jpg?X-Amz-Expires=3600'', ''https://r2/b.jpg?old'']"
  by (simp add: batch_fst closed_defs resolvable_a resolvable_b demo_defs const_defs fresh_def)

lemma stale_a_demo:
  "(\<forall>c. signedUrlCache warmState (keyOf ''r2://bucket/a.jpg'') = Some c \<longrightarrow>
        expiresAt c \<le> 1800000 + SAFETY_BUFFER_MS) \<and>
   (\<forall>c. redisRead (redis warmState) 1800000 (redisKey (keyOf ''r2://bucket/a.jpg'')) = Some (Obj c) \<longrightarrow>
        expiresAt c \<le> 1800000 + SAFETY_BUFFER_MS)"
  by (simp add: resolvable_a demo_defs const_defs redisRead_def redisKey_def)

theorem expired_entries_never_served_witness:
  "getSignedUrl demoEnv ''a.jpg'' None SIGNED_URL_EXPIRY 1800000
     = Some ''https://r2/a.jpg?X-Amz-Expires=3600'' \<and>
   signKeys (trace (snd (getAuthenticatedUrl demoEnv 1800000 ''r2://bucket/a.jpg'' warmState)))
     = signKeys (trace warmState) @ [''a.jpg''] \<and>
   (\<exists>c. provenance demoEnv 1800000 warmState ''b.jpg'' c \<and>
        1800000 + SAFETY_BUFFER_MS < expiresAt c \<and> url c = ''https://r2/b.jpg?old'') \<and>
   (\<exists>ks. signKeys (trace (snd (getAuthenticatedUrls demoEnv 1800000
                                 [''r2://bucket/a.jpg'', ''r2://bucket/b.jpg''] warmState)))
           = signKeys (trace warmState) @ ks \<and> ''a.jpg'' \<in> set ks)"
proof -
  let ?a = "''r2://bucket/a.jpg''" and ?b = "''r2://bucket/b.jpg''"
  let ?ua = "''https://r2/a.jpg?X-Amz-Expires=3600''" and ?ub = "''https://r2/b.jpg?old''"
  define S1 where "S1 = snd (getAuthenticatedUrl demoEnv 1800000 ?a warmState)"
  define T1 where "T1 = snd (getAuthenticatedUrls demoEnv 1800000 [?a, ?b] warmState)"
  have h1: "resolvable ?a \<and> getAuthenticatedUrl demoEnv 1800000 ?a warmState = (Inr ?ua, S1)"
    using stale_resolve_demo resolvable_a(1) by (simp add: S1_def prod_eq_iff)
  have b: "getAuthenticatedUrls demoEnv 1800000 [?a, ?b] warmState = (Inr [?ua, ?ub], T1)"
    using batch_demo by (simp add: T1_def prod_eq_iff)
  have h3: "getAuthenticatedUrls demoEnv 1800000 [?a, ?b] warmState = (Inr [?ua, ?ub], T1) \<and>
            0 < length [?a, ?b] \<and> resolvable ([?a, ?b] ! 0)"
    using b resolvable_a(1) by simp
  have h4: "getAuthenticatedUrls demoEnv 1800000 [?a, ?b] warmState = (Inr [?ua, ?ub], T1) \<and>
            1 < length [?a, ?b] \<and> resolvable ([?a, ?b] ! 1)"
    using b resolvable_b(1) by simp
  have st: "(\<forall>c. signedUrlCache warmState (keyOf ([?a, ?b] ! 0)) = Some c \<longrightarrow>
                expiresAt c \<le> 1800000 + SAFETY_BUFFER_MS) \<and>
           (\<forall>c. redisRead (redis warmState) 1800000 (redisKey (keyOf ([?a, ?b] ! 0))) = Some (Obj c) \<longrightarrow>
                expiresAt c \<le> 1800000 + SAFETY_BUFFER_MS)"
    using stale_a_demo by simp
  note T0 = expired_entries_never_served[of ?a demoEnv 1800000 warmState ?ua S1 "[?a, ?b]" "[?ua, ?ub]" T1 0]
  note T1' = expired_entries_never_served[of ?a demoEnv 1800000 warmState ?ua S1 "[?a, ?b]" "[?ua, ?ub]" T1 1]
  from T0 h1 stale_a_demo
  have c1: "getSignedUrl demoEnv (keyOf ?a) None SIGNED_URL_EXPIRY 1800000 = Some ?ua \<and>
            signKeys (trace S1) = signKeys (trace warmState) @ [keyOf ?a]"
    by blast
  from T0 h3 st
  have c2: "\<exists>ks. signKeys (trace T1) = signKeys (trace warmState) @ ks \<and> keyOf ([?a, ?b] ! 0) \<in> set ks"
    by blast
  from T1' h4
  have c3: "\<exists>c. provenance demoEnv 1800000 warmState (keyOf ([?a, ?b] ! 1)) c \<and>
        1800000 + SAFETY_BUFFER_MS < expiresAt c \<and> url c = [?ua, ?ub] ! 1"
    by blast
  show ?thesis
    using c1 c2 c3 by (simp add: resolvable_a resolvable_b S1_def T1_def)
qed

section \<open>The batch resolver in normal operation and past the deadline\<close>

lemma batch_main:
  assumes "batchOutcome E now s us = Inr rs"
  shows "getAuthenticatedUrls E now us s = (Inr rs, batchState E now s us)"
proof (cases "us = []")
  case True
  then show ?thesis
    using assms by (simp add: getAuthenticatedUrls_def batchOutcome_def batchState_def Let_def)
next
  case False
  then show ?thesis
    using assms by (simp add: getAuthenticatedUrls_def batchPath_closed)
qed

lemma memHit_redis [simp]: "memHit now (st\<lparr>redis := store\<rparr>) u = memHit now st u"
  by (simp add: memHit_def)

lemma needsLookup_redis [simp]: "needsLookup now (st\<lparr>redis := store\<rparr>) u = needsLookup now st u"
  by (simp add: needsLookup_def)

lemma timeout_outcome:
  assumes "MGET_TIMEOUT_MS < mget_latency E"
    and "\<forall>u \<in> set us. needsLookup now s u \<longrightarrow> presigned E now u \<noteq> None"
  shows "batchOutcome E now s us = Inr (map (degraded E now s) us)"
proof -
  have nr: "\<not> replied E" using assms(1) by (simp add: replied_def)
  have ns: "needsSigning E now s u = needsLookup now s u" for u
    using nr by (simp add: needsSigning_def distHit_def)
  have "expected E now s u = degraded E now s u" if "u \<in> set us" for u
    using that assms(2) nr
    by (auto simp: expected_def degraded_def distHit_def needsLookup_def split: option.splits)
  then have "map (expected E now s) us = map (degraded E now s) us" by simp
  moreover have "\<not> list_ex (\<lambda>u. needsSigning E now s u \<and> presigned E now u = None) us"
    using assms(2) by (auto simp: list_ex_iff ns)
  ultimately show ?thesis using nr by (simp add: batchOutcome_def)
qed

text \<open>
  C5. The bulk read is raced against a timer of \<open>MGET_TIMEOUT_MS\<close> = 2000 ms. When
  the read takes longer, and the presigner answers for every reference that missed the
  memory cache, \<open>getAuthenticatedUrls\<close> returns a list as long as its input: a
  reference that hit the memory cache gets that URL, every other resolvable reference
  gets the presigner's URL, and the presigner is called once for each of them, whatever
  Redis holds. The result is the same for any content of the store: the late answer is
  not read.
\<close>

theorem timeout_degrades_to_signing:
  assumes "MGET_TIMEOUT_MS < mget_latency E"
    and "\<forall>u \<in> set fileUrls. needsLookup now s u \<longrightarrow> presigned E now u \<noteq> None"
  shows "\<exists>rs s'. getAuthenticatedUrls E now fileUrls s = (Inr rs, s') \<and>
           length rs = length fileUrls \<and>
           rs = map (degraded E now s) fileUrls \<and>
           signKeys (trace s') = signKeys (trace s) @ map keyOf (filter (needsLookup now s) fileUrls) \<and>
           fst (getAuthenticatedUrls E now fileUrls (s\<lparr>redis := store\<rparr>)) = Inr rs"
proof -
  have nr: "\<not> replied E" using assms(1) by (simp add: replied_def)
  have ns: "needsSigning E now s = needsLookup now s"
    using nr by (simp add: fun_eq_iff needsSigning_def distHit_def)
  have a: "getAuthenticatedUrls E now fileUrls s =
      (Inr (map (degraded E now s) fileUrls), batchState E now s fileUrls)"
    by (rule batch_main[OF timeout_outcome[OF assms]])
  have "\<forall>u \<in> set fileUrls. needsLookup now (s\<lparr>redis := store\<rparr>) u \<longrightarrow> presigned E now u \<noteq> None"
    using assms(2) by simp
  from batch_main[OF timeout_outcome[OF assms(1) this]]
  have b: "fst (getAuthenticatedUrls E now fileUrls (s\<lparr>redis := store\<rparr>)) =
      Inr (map (degraded E now s) fileUrls)"
    by (simp add: degraded_def[abs_def])
  have c: "signKeys (trace (batchState E now s fileUrls)) =
      signKeys (trace s) @ map keyOf (filter (needsLookup now s) fileUrls)"
    using nr by (simp add: sk_batchState ns)
  show ?thesis using a b c by simp
qed

lemma needsSigning_cold:
  "replied E \<Longrightarrow> needsSigning E now s = cold now s"
  by (auto simp: fun_eq_iff needsSigning_def cold_def needsLookup_def distHit_def)

lemma count_list_distinct_map:
  assumes "distinct (map f xs)" and "x \<in> set xs"
  shows "count_list (map f (filter P xs)) (f x) = (if P x then 1 else 0)"
  using assms
proof (induction xs)
  case Nil
  then show ?case by simp
next
  case (Cons y ys)
  have notin: "f y \<notin> set (map f (filter P ys))" using Cons.prems(1) by auto
  show ?case
  proof (cases "x = y")
    case True
    then show ?thesis using notin by (simp add: count_list_0_iff)
  next
    case False
    then have "x \<in> set ys" using Cons.prems(2) by simp
    moreover have "f y \<noteq> f x" using Cons.prems(1) \<open>x \<in> set ys\<close> by auto
    ultimately show ?thesis using Cons by simp
  qed
qed

lemma demo_keys:
  "map keyOf demoRefs = [''a.jpg'', ''b.jpg'', ''c.jpg'', ''d.jpg'', ''e.jpg'']"
  "\<forall>u \<in> set demoRefs. resolvable u"
  by (simp_all add: demoRefs_def keyOf_def resolvable_def falsy_def parseR2Url_def startsWith_def)

lemma demo_signer: "presigned demoEnv now u = Some (''https://r2/'' @ keyOf u @ ''?X-Amz-Expires=3600'')"
  "presigned slowEnv now u = Some (''https://r2/'' @ keyOf u @ ''?X-Amz-Expires=3600'')"
  by (simp_all add: presigned_def demoEnv_def slowEnv_def)

lemma demo_hits:
  "map (memHit 0 warmState) demoRefs =
     [Some \<lparr>url = ''https://r2/a.jpg?old'', expiresAt = 2000000\<rparr>, None, None, None, None]"
  "map (storeHit 0 (redis warmState)) demoRefs =
     [None, Some \<lparr>url = ''https://r2/b.jpg?old'', expiresAt = 2500000\<rparr>,
      Some \<lparr>url = ''https://r2/c.jpg?old'', expiresAt = 2500000\<rparr>, None, None]"
proof -
  have k: "map (memHit 0 warmState) demoRefs =
      map (\<lambda>k. memValid 0 (signedUrlCache warmState k)) (map keyOf demoRefs)"
    "map (storeHit 0 (redis warmState)) demoRefs =
      map (\<lambda>k. redisValid 0 (redisRead (redis warmState) 0 (redisKey k))) (map keyOf demoRefs)"
    by (simp_all add: memHit_def storeHit_def comp_def)
  show "map (memHit 0 warmState) demoRefs =
     [Some \<lparr>url = ''https://r2/a.jpg?old'', expiresAt = 2000000\<rparr>, None, None, None, None]"
    unfolding k demo_keys
    by (simp add: warmState_def memValid_def fresh_def const_defs)
  show "map (storeHit 0 (redis warmState)) demoRefs =
     [None, Some \<lparr>url = ''https://r2/b.jpg?old'', expiresAt = 2500000\<rparr>,
      Some \<lparr>url = ''https://r2/c.jpg?old'', expiresAt = 2500000\<rparr>, None, None]"
    unfolding k demo_keys
    by (simp add: warmState_def redisValid_def redisRead_def redisKey_def fresh_def const_defs)
qed

lemmas demo_hit_facts = demo_hits[unfolded demoRefs_def, simplified]
  demo_keys[unfolded demoRefs_def, simplified]

lemma demo_cold: "filter (cold 0 warmState) demoRefs = [''r2://bucket/d.jpg'', ''r2://bucket/e.jpg'']"
  using demo_hit_facts by (simp add: demoRefs_def cold_def)

lemma demo_lookups:
  "filter (needsLookup 0 warmState) demoRefs =
     [''r2://bucket/b.jpg'', ''r2://bucket/c.jpg'', ''r2://bucket/d.jpg'', ''r2://bucket/e.jpg'']"
  using demo_hit_facts by (simp add: demoRefs_def needsLookup_def)

lemma demo_degraded:
  "map (degraded slowEnv 0 warmState) demoRefs =
     [''https://r2/a.jpg?old'', ''https://r2/b.jpg?X-Amz-Expires=3600'',
      ''https://r2/c.jpg?X-Amz-Expires=3600'', ''https://r2/d.jpg?X-Amz-Expires=3600'',
      ''https://r2/e.jpg?X-Amz-Expires=3600'']"
  using demo_hit_facts by (simp add: demoRefs_def degraded_def demo_signer)

theorem timeout_degrades_to_signing_witness:
  "\<exists>s'. getAuthenticatedUrls slowEnv 0 demoRefs warmState =
          (Inr [''https://r2/a.jpg?old'', ''https://r2/b.jpg?X-Amz-Expires=3600'',
                ''https://r2/c.jpg?X-Amz-Expires=3600'', ''https://r2/d.jpg?X-Amz-Expires=3600'',
                ''https://r2/e.jpg?X-Amz-Expires=3600''], s') \<and>
        signKeys (trace s') = [''b.jpg'', ''c.jpg'', ''d.jpg'', ''e.jpg'']"
proof -
  have h1: "MGET_TIMEOUT_MS < mget_latency slowEnv"
    by (simp add: slowEnv_def const_defs)
  have h2: "\<forall>u \<in> set demoRefs. needsLookup 0 warmState u \<longrightarrow> presigned slowEnv 0 u \<noteq> None"
    by (simp add: demo_signer)
  have k: "map keyOf (filter (needsLookup 0 warmState) demoRefs) = [''b.jpg'', ''c.jpg'', ''d.jpg'', ''e.jpg'']"
    using demo_hit_facts by (simp add: demo_lookups)
  have t: "signKeys (trace warmState) = []" by (simp add: warmState_def)
  from timeout_degrades_to_signing[OF h1 h2, of Map.empty]
  show ?thesis unfolding k t demo_degraded by auto
qed

section \<open>Batch against single, and the fallback\<close>

lemma single_expected:
  assumes "replied E" and "singleOutcome E now s u = Inr r"
  shows "expected E now s u = r"
  using assms
  by (auto simp: singleOutcome_def expected_def missOutcome_def distHit_def storeHit_def presigned_def
      split: option.splits if_splits)

lemma single_is_expected:
  assumes "replied E"
    and "needsLookup now s u \<longrightarrow> \<not> get_rejects E (redisKey (keyOf u))"
    and "cold now s u \<longrightarrow> presigned E now u \<noteq> None \<and> \<not> set_rejects E (redisKey (keyOf u))"
  shows "singleOutcome E now s u = Inr (expected E now s u)"
  using assms
  by (auto simp: singleOutcome_def expected_def missOutcome_def distHit_def storeHit_def presigned_def
      needsLookup_def cold_def split: option.splits if_splits)

lemma fallback_fails_after_signer_failure:
  assumes "replied E" and "needsSigning E now s u0" and "presigned E now u0 = None"
  shows "\<exists>e. singleOutcome E now (batchState E now s us) u0 = Inl e"
proof -
  define P where "P = (\<lambda>k (c::SignedUrlCache). k = keyOf u0 \<longrightarrow> \<not> fresh now c)"
  have mem0: "memHit now s u0 = None" and hit0: "storeHit now (redis s) u0 = None"
    and res: "resolvable u0"
    using assms(1,2) by (simp_all add: needsSigning_def needsLookup_def distHit_def)
  have t: "tiersSatisfy P now s"
    using mem0 hit0
    by (auto simp: tiersSatisfy_def P_def memHit_def storeHit_def memValid_def redisValid_def
        split: option.splits if_splits)
  have sg: "signerSatisfies P E now"
    using assms(3) by (auto simp: signerSatisfies_def P_def presigned_def)
  have t1: "tiersSatisfy P now (batchState E now s us)"
    by (rule tiers_batchState[OF t t sg])
  have m1: "memHit now (batchState E now s us) u0 = None"
    using t1 by (auto simp: tiersSatisfy_def P_def memHit_def memValid_def split: option.splits)
  have r1: "redisValid now (redisRead (redis (batchState E now s us)) now (redisKey (keyOf u0))) = None"
    using t1
    by (auto simp: tiersSatisfy_def P_def redisValid_def split: option.splits redis_value.splits)
  show ?thesis
    using res m1 r1 assms(3)
    by (simp add: singleOutcome_def missOutcome_def presigned_def)
qed

subsection \<open>Presigner calls of a batch\<close>

lemma concat_map_if:
  assumes "\<forall>x \<in> set xs. P x \<longrightarrow> Q x"
  shows "concat (map (\<lambda>x. if P x \<and> Q x then [f x] else []) xs) = map f (filter P xs)"
  using assms by (induction xs) auto

lemma batch_sign_keys:
  assumes "replied E" and "getAuthenticatedUrls E now us s = (Inr rs, s')"
  shows "length rs = length us \<and>
         signKeys (trace s') = signKeys (trace s) @ map keyOf (filter (cold now s) us)"
proof (cases "us = []")
  case True
  then show ?thesis using assms(2) by (simp add: getAuthenticatedUrls_def)
next
  case False
  have f: "fst (getAuthenticatedUrls E now us s) = Inr rs"
    and s': "s' = snd (getAuthenticatedUrls E now us s)" using assms(2) by simp_all
  have ns: "needsSigning E now s = cold now s" by (rule needsSigning_cold[OF assms(1)])
  show ?thesis
  proof (cases "batchOutcome E now s us")
    case (Inr xs)
    then have rs: "rs = map (expected E now s) us"
      using f False by (auto simp: batch_fst batchOutcome_def split: if_splits)
    have nl: "\<not> (list_ex (needsLookup now s) us \<and> mget_rejects E)"
      using Inr assms(1) by (auto simp: batchOutcome_def split: if_splits)
    have "filter (cold now s) us = []" if "mget_rejects E"
      using that nl by (auto simp: filter_empty_conv list_ex_iff cold_def needsLookup_def)
    then have "signKeys (trace (batchState E now s us)) =
        signKeys (trace s) @ map keyOf (filter (cold now s) us)"
      by (simp add: sk_batchState ns)
    then show ?thesis using Inr False by (simp add: rs s' batch_snd)
  next
    case (Inl e)
    let ?s1 = "batchState E now s us"
    have "promiseAll (map (singleOutcome E now ?s1) us) = Inr rs"
      using f False Inl by (simp add: batch_fst)
    then have m: "map (singleOutcome E now ?s1) us = map Inr rs" by (rule promiseAll_Inr)
    then have len: "length rs = length us" by (metis length_map)
    have rej: "list_ex (needsLookup now s) us \<and> replied E \<and> mget_rejects E"
    proof (rule ccontr)
      assume n: "\<not> (list_ex (needsLookup now s) us \<and> replied E \<and> mget_rejects E)"
      then obtain u0 where u0: "u0 \<in> set us" "needsSigning E now s u0" "presigned E now u0 = None"
        using Inl by (auto simp: batchOutcome_def list_ex_iff split: if_splits)
      obtain e' where "singleOutcome E now ?s1 u0 = Inl e'"
        using fallback_fails_after_signer_failure[OF assms(1) u0(2,3)] by blast
      moreover have "singleOutcome E now ?s1 u0 \<in> set (map Inr rs)"
        using u0(1) m[symmetric] by simp
      ultimately show False by auto
    qed
    have same: "signedUrlCache ?s1 = signedUrlCache s" "redis ?s1 = redis s"
      using batchState_rejected[of now s us E] rej by simp_all
    have pm: "map (singleOutcome E now s) us = map Inr rs"
      using m by (simp only: singleOutcome_cong[OF same])
    have g: "\<forall>u \<in> set us. cold now s u \<longrightarrow> \<not> get_rejects E (redisKey (keyOf u))"
    proof (intro ballI impI)
      fix u assume u: "u \<in> set us" and c: "cold now s u"
      have "singleOutcome E now s u \<in> set (map (singleOutcome E now s) us)" using u by simp
      then have "singleOutcome E now s u \<in> set (map Inr rs)" by (simp only: pm)
      then obtain r where "singleOutcome E now s u = Inr r" by auto
      then show "\<not> get_rejects E (redisKey (keyOf u))" using cold_single_Inr[OF c] by blast
    qed
    have "signKeys (trace s') = signKeys (trace s) @
        concat (map (\<lambda>u. if cold now s u \<and> \<not> get_rejects E (redisKey (keyOf u)) then [keyOf u] else []) us)"
      using rej False Inl by (simp add: s' batch_snd sk_fallback sk_batchState cold_cong[OF same])
    then show ?thesis using len by (simp add: concat_map_if[OF g])
  qed
qed

lemma batch_returns:
  assumes "replied E"
    and "\<forall>u \<in> set us. cold now s u \<longrightarrow> presigned E now u \<noteq> None"
    and "mget_rejects E \<longrightarrow>
           (\<forall>u \<in> set us. (needsLookup now s u \<longrightarrow> \<not> get_rejects E (redisKey (keyOf u))) \<and>
                          (cold now s u \<longrightarrow> \<not> set_rejects E (redisKey (keyOf u))))"
  shows "\<exists>qs t'. getAuthenticatedUrls E now us s = (Inr qs, t')"
proof (cases "list_ex (needsLookup now s) us \<and> mget_rejects E")
  case False
  have ns: "needsSigning E now s = cold now s" by (rule needsSigning_cold[OF assms(1)])
  have "\<not> list_ex (\<lambda>u. needsSigning E now s u \<and> presigned E now u = None) us"
    using assms(2) by (auto simp: list_ex_iff ns)
  then have "batchOutcome E now s us = Inr (map (expected E now s) us)"
    using False by (auto simp: batchOutcome_def)
  from batch_main[OF this] show ?thesis by blast
next
  case True
  let ?s1 = "batchState E now s us"
  have ne: "us \<noteq> []" using True by auto
  have out: "batchOutcome E now s us = Inl RedisFailure"
    using True assms(1) by (simp add: batchOutcome_def)
  have same: "signedUrlCache ?s1 = signedUrlCache s" "redis ?s1 = redis s"
    using batchState_rejected[of now s us E] True assms(1) by simp_all
  have "singleOutcome E now s u = Inr (expected E now s u)" if "u \<in> set us" for u
    using single_is_expected[OF assms(1), of now s u] assms(2,3) True that by blast
  then have "map (singleOutcome E now ?s1) us = map Inr (map (expected E now s) us)"
    by (simp add: singleOutcome_cong[OF same])
  then have "promiseAll (map (singleOutcome E now ?s1) us) = Inr (map (expected E now s) us)"
    by (simp only: promiseAll_map_Inr)
  then have "fst (getAuthenticatedUrls E now us s) = Inr (map (expected E now s) us)"
    using ne out by (simp add: batch_fst)
  then show ?thesis by (metis prod.collapse)
qed

text \<open>
  C6. Let the bulk read complete before its deadline, with an answer or with a rejection.
  For a batch of resolvable references with pairwise distinct keys, whenever
  \<open>getAuthenticatedUrls\<close> returns a list, through the batch path or through the
  fallback that follows a rejected bulk read, the list is as long as the input and the
  presigner calls added to the trace are exactly the keys of the references that are cold
  (no entry passing the expiry check in the memory cache nor in Redis), in order: one
  call for each such key and none for a key cached in either tier. And it does return a
  list when the presigner answers for the cold references and, the bulk read being
  rejected, the \<open>GET\<close>s and \<open>SET\<close>s of the fallback are not. (References are told
  apart by their key, the bucket of an \<open>r2://\<close> reference not being part of it.)
\<close>

theorem batch_signs_each_cold_key_once:
  assumes "replied E"
    and "\<forall>u \<in> set fileUrls. resolvable u"
    and "distinct (map keyOf fileUrls)"
  shows "(\<forall>rs s'. getAuthenticatedUrls E now fileUrls s = (Inr rs, s') \<longrightarrow>
            length rs = length fileUrls \<and>
            signKeys (trace s') = signKeys (trace s) @ map keyOf (filter (cold now s) fileUrls)) \<and>
         (\<forall>u \<in> set fileUrls.
            count_list (map keyOf (filter (cold now s) fileUrls)) (keyOf u) =
              (if cold now s u then 1 else 0)) \<and>
         ((\<forall>u \<in> set fileUrls. cold now s u \<longrightarrow> presigned E now u \<noteq> None) \<and>
          (mget_rejects E \<longrightarrow>
             (\<forall>u \<in> set fileUrls.
                (needsLookup now s u \<longrightarrow> \<not> get_rejects E (redisKey (keyOf u))) \<and>
                (cold now s u \<longrightarrow> \<not> set_rejects E (redisKey (keyOf u))))) \<longrightarrow>
            (\<exists>qs t'. getAuthenticatedUrls E now fileUrls s = (Inr qs, t')))"
proof (intro conjI impI allI)
  fix rs s'
  assume b: "getAuthenticatedUrls E now fileUrls s = (Inr rs, s')"
  note a = batch_sign_keys[OF assms(1) b]
  show "length rs = length fileUrls" using a by (rule conjunct1)
  show "signKeys (trace s') = signKeys (trace s) @ map keyOf (filter (cold now s) fileUrls)"
    using a by (rule conjunct2)
next
  show "\<forall>u \<in> set fileUrls.
            count_list (map keyOf (filter (cold now s) fileUrls)) (keyOf u) =
              (if cold now s u then 1 else 0)"
    using count_list_distinct_map[OF assms(3)] by blast
next
  assume h: "(\<forall>u \<in> set fileUrls. cold now s u \<longrightarrow> presigned E now u \<noteq> None) \<and>
          (mget_rejects E \<longrightarrow>
             (\<forall>u \<in> set fileUrls.
                (needsLookup now s u \<longrightarrow> \<not> get_rejects E (redisKey (keyOf u))) \<and>
                (cold now s u \<longrightarrow> \<not> set_rejects E (redisKey (keyOf u)))))"
  show "\<exists>qs t'. getAuthenticatedUrls E now fileUrls s = (Inr qs, t')"
    by (rule batch_returns[OF assms(1) conjunct1[OF h] conjunct2[OF h]])
qed

theorem batch_signs_each_cold_key_once_witness:
  "\<exists>rs s'. getAuthenticatedUrls demoEnv 0 demoRefs warmState = (Inr rs, s') \<and>
      length rs = 5 \<and> signKeys (trace s') = [''d.jpg'', ''e.jpg'']"
proof -
  have h1: "replied demoEnv" and h2: "\<not> mget_rejects demoEnv"
    by (simp_all add: replied_def demoEnv_def const_defs)
  have h3: "\<forall>u \<in> set demoRefs. resolvable u" by (rule demo_keys(2))
  have h4: "\<forall>u \<in> set demoRefs. cold 0 warmState u \<longrightarrow> presigned demoEnv 0 u \<noteq> None"
    by (simp add: demo_signer)
  have h5: "distinct (map keyOf demoRefs)" by (simp add: demo_keys(1))
  have k: "map keyOf (filter (cold 0 warmState) demoRefs) = [''d.jpg'', ''e.jpg'']"
    using demo_hit_facts by (simp add: demo_cold)
  have t: "signKeys (trace warmState) = []" by (simp add: warmState_def)
  have l: "length demoRefs = 5" by (simp add: demoRefs_def)
  note inst = batch_signs_each_cold_key_once[OF h1 h3 h5, of 0 warmState]
  have "\<exists>qs t'. getAuthenticatedUrls demoEnv 0 demoRefs warmState = (Inr qs, t')"
    using inst h2 h4 by blast
  then obtain qs t' where r: "getAuthenticatedUrls demoEnv 0 demoRefs warmState = (Inr qs, t')"
    by (elim exE)
  have "length qs = length demoRefs \<and>
        signKeys (trace t') = signKeys (trace warmState) @ map keyOf (filter (cold 0 warmState) demoRefs)"
    using inst r by blast
  then have "length qs = 5 \<and> signKeys (trace t') = [''d.jpg'', ''e.jpg'']"
    unfolding k t l by simp
  then show ?thesis using r by blast
qed

text \<open>
  Past the deadline the statement fails. The key \<open>b.jpg\<close> has an entry in Redis that
  passes the expiry check; the bulk read takes 3000 ms, the timer wins, and the batch
  resolver returns a newly signed URL, with a presigner call for \<open>b.jpg\<close>.
\<close>

theorem timed_out_batch_signs_cached_key:
  "storeHit 0 (redis warmState) ''r2://bucket/b.jpg''
     = Some \<lparr>url = ''https://r2/b.jpg?old'', expiresAt = 2500000\<rparr> \<and>
   signKeys (trace warmState) = [] \<and>
   fst (getAuthenticatedUrls slowEnv 0 [''r2://bucket/b.jpg''] warmState)
     = Inr [''https://r2/b.jpg?X-Amz-Expires=3600''] \<and>
   signKeys (trace (snd (getAuthenticatedUrls slowEnv 0 [''r2://bucket/b.jpg''] warmState))) = [''b.jpg'']"
proof (intro conjI)
  show "storeHit 0 (redis warmState) ''r2://bucket/b.jpg''
     = Some \<lparr>url = ''https://r2/b.jpg?old'', expiresAt = 2500000\<rparr>"
    by (simp add: closed_defs resolvable_b demo_defs const_defs fresh_def)
  show "signKeys (trace warmState) = []" by (simp add: warmState_def)
  show "fst (getAuthenticatedUrls slowEnv 0 [''r2://bucket/b.jpg''] warmState)
     = Inr [''https://r2/b.jpg?X-Amz-Expires=3600'']"
    by (simp add: batch_fst closed_defs resolvable_b demo_defs slowEnv_def const_defs Let_def)
  have o: "batchOutcome slowEnv 0 warmState [''r2://bucket/b.jpg'']
      = Inr [''https://r2/b.jpg?X-Amz-Expires=3600'']"
    by (simp add: closed_defs resolvable_b demo_defs slowEnv_def const_defs Let_def)
  have n: "filter (needsSigning slowEnv 0 warmState) [''r2://bucket/b.jpg''] = [''r2://bucket/b.jpg'']"
    by (simp add: closed_defs resolvable_b demo_defs slowEnv_def const_defs)
  have r: "\<not> replied slowEnv" by (simp add: replied_def slowEnv_def demoEnv_def const_defs)
  show "signKeys (trace (snd (getAuthenticatedUrls slowEnv 0 [''r2://bucket/b.jpg''] warmState))) = [''b.jpg'']"
  proof -
    have "snd (getAuthenticatedUrls slowEnv 0 [''r2://bucket/b.jpg''] warmState)
        = batchState slowEnv 0 warmState [''r2://bucket/b.jpg'']"
      by (simp add: batch_snd o)
    moreover have "signKeys (trace (batchState slowEnv 0 warmState [''r2://bucket/b.jpg'']))
        = signKeys (trace warmState) @ [''b.jpg'']"
      using r by (simp only: sk_batchState n) (simp add: resolvable_b)
    ultimately show ?thesis by (simp add: warmState_def)
  qed
qed

subsection \<open>Agreement of the two resolvers\<close>

lemma batch_agrees_when_both_return:
  assumes "replied E" and "getAuthenticatedUrls E now us s = (Inr rs, s')"
  shows "length rs = length us \<and>
         (\<forall>i < length us.
            (\<not> resolvable (us ! i) \<longrightarrow> rs ! i = us ! i) \<and>
            (\<forall>r. singleOutcome E now s (us ! i) = Inr r \<longrightarrow> rs ! i = r))"
proof (cases "us = []")
  case True
  then show ?thesis using assms(2) by (simp add: getAuthenticatedUrls_def)
next
  case False
  have f: "fst (getAuthenticatedUrls E now us s) = Inr rs" using assms(2) by simp
  show ?thesis
  proof (cases "batchOutcome E now s us")
    case (Inr xs)
    then have rs: "rs = map (expected E now s) us"
      using f False by (auto simp: batch_fst batchOutcome_def split: if_splits)
    have "expected E now s (us ! i) = us ! i" if "\<not> resolvable (us ! i)" for i
      using that by (simp add: expected_def)
    then show ?thesis
      using single_expected[OF assms(1)] by (auto simp: rs)
  next
    case (Inl e)
    let ?s1 = "batchState E now s us"
    have "promiseAll (map (singleOutcome E now ?s1) us) = Inr rs"
      using f False Inl by (simp add: batch_fst)
    then have m: "map (singleOutcome E now ?s1) us = map Inr rs" by (rule promiseAll_Inr)
    then have len: "length rs = length us" by (metis length_map)
    have nth: "singleOutcome E now ?s1 (us ! i) = Inr (rs ! i)" if "i < length us" for i
      using that m len by (metis nth_map)
    have rej: "list_ex (needsLookup now s) us \<and> replied E \<and> mget_rejects E"
    proof (rule ccontr)
      assume n: "\<not> (list_ex (needsLookup now s) us \<and> replied E \<and> mget_rejects E)"
      then obtain u0 where u0: "u0 \<in> set us" "needsSigning E now s u0" "presigned E now u0 = None"
        using Inl by (auto simp: batchOutcome_def list_ex_iff split: if_splits)
      obtain e' where "singleOutcome E now ?s1 u0 = Inl e'"
        using fallback_fails_after_signer_failure[OF assms(1) u0(2,3)] by blast
      moreover have "singleOutcome E now ?s1 u0 \<in> set (map Inr rs)"
        using u0(1) m[symmetric] by simp
      ultimately show False by auto
    qed
    have same: "singleOutcome E now ?s1 = singleOutcome E now s"
      using batchState_rejected[of now s us E] rej by (intro singleOutcome_cong) simp_all
    have "rs ! i = us ! i" if "i < length us" "\<not> resolvable (us ! i)" for i
      using nth[OF that(1)] that(2) by (simp add: singleOutcome_def)
    moreover have "rs ! i = r" if "i < length us" "singleOutcome E now s (us ! i) = Inr r" for i r
      using nth[OF that(1)] that(2) by (simp add: same)
    ultimately show ?thesis using len by blast
  qed
qed

text \<open>
  C3. Let the bulk read answer before its deadline. Run from the same state at the same
  instant, \<open>getAuthenticatedUrls\<close> and \<open>getAuthenticatedUrl\<close> agree: when the
  batch returns a list, it is as long as the input, a reference without a truthy key
  stands unchanged at its index, and at each index the URL is the one that the
  single-key resolver returns for that reference, whenever it returns one. And both do
  return when no Redis command and no needed presigner call rejects.
\<close>

theorem batch_agrees_with_single:
  assumes "replied E"
  shows "(getAuthenticatedUrls E now fileUrls s = (Inr rs, s') \<longrightarrow>
            length rs = length fileUrls \<and>
            (\<forall>i < length fileUrls.
               (\<not> resolvable (fileUrls ! i) \<longrightarrow> rs ! i = fileUrls ! i) \<and>
               (\<forall>r t. getAuthenticatedUrl E now (fileUrls ! i) s = (Inr r, t) \<longrightarrow> rs ! i = r))) \<and>
         (\<not> mget_rejects E \<and>
          (\<forall>u \<in> set fileUrls.
             (needsLookup now s u \<longrightarrow> \<not> get_rejects E (redisKey (keyOf u))) \<and>
             (cold now s u \<longrightarrow> presigned E now u \<noteq> None \<and> \<not> set_rejects E (redisKey (keyOf u)))) \<longrightarrow>
            (\<exists>qs t'. getAuthenticatedUrls E now fileUrls s = (Inr qs, t') \<and>
               length qs = length fileUrls \<and>
               (\<forall>i < length fileUrls. fst (getAuthenticatedUrl E now (fileUrls ! i) s) = Inr (qs ! i))))"
proof (intro conjI impI)
  assume b: "getAuthenticatedUrls E now fileUrls s = (Inr rs, s')"
  note a = batch_agrees_when_both_return[OF assms b]
  show "length rs = length fileUrls" using a by blast
  show "\<forall>i < length fileUrls.
               (\<not> resolvable (fileUrls ! i) \<longrightarrow> rs ! i = fileUrls ! i) \<and>
               (\<forall>r t. getAuthenticatedUrl E now (fileUrls ! i) s = (Inr r, t) \<longrightarrow> rs ! i = r)"
  proof (intro allI impI conjI)
    fix i assume i: "i < length fileUrls"
    show "rs ! i = fileUrls ! i" if "\<not> resolvable (fileUrls ! i)"
      using a i that by blast
    fix r t assume "getAuthenticatedUrl E now (fileUrls ! i) s = (Inr r, t)"
    then have "singleOutcome E now s (fileUrls ! i) = Inr r"
      using fst_single[of E now "fileUrls ! i" s] by simp
    then show "rs ! i = r" using a i by blast
  qed
next
  assume h: "\<not> mget_rejects E \<and>
          (\<forall>u \<in> set fileUrls.
             (needsLookup now s u \<longrightarrow> \<not> get_rejects E (redisKey (keyOf u))) \<and>
             (cold now s u \<longrightarrow> presigned E now u \<noteq> None \<and> \<not> set_rejects E (redisKey (keyOf u))))"
  have ns: "needsSigning E now s = cold now s" by (rule needsSigning_cold[OF assms])
  have "\<not> list_ex (\<lambda>u. needsSigning E now s u \<and> presigned E now u = None) fileUrls"
    using h by (auto simp: list_ex_iff ns)
  then have "batchOutcome E now s fileUrls = Inr (map (expected E now s) fileUrls)"
    using h by (simp add: batchOutcome_def)
  from batch_main[OF this]
  have a: "getAuthenticatedUrls E now fileUrls s =
      (Inr (map (expected E now s) fileUrls), batchState E now s fileUrls)" .
  have "fst (getAuthenticatedUrl E now (fileUrls ! i) s) = Inr (expected E now s (fileUrls ! i))"
    if "i < length fileUrls" for i
    using single_is_expected[OF assms, of now s "fileUrls ! i"] h that
    by (simp add: fst_single)
  then show "\<exists>qs t'. getAuthenticatedUrls E now fileUrls s = (Inr qs, t') \<and>
               length qs = length fileUrls \<and>
               (\<forall>i < length fileUrls. fst (getAuthenticatedUrl E now (fileUrls ! i) s) = Inr (qs ! i))"
    using a by simp
qed

lemma missOutcome_store:
  "redisRead store' now (redisKey k) = redisRead store now (redisKey k) \<Longrightarrow>
   missOutcome E now store' k = missOutcome E now store k"
  by (simp add: missOutcome_def)

lemma single_preserves_outcomes:
  assumes "getAuthenticatedUrl E now u0 st = (Inr r, st')"
  shows "singleOutcome E now st' u = singleOutcome E now st u"
proof (cases "resolvable u0 \<and> memHit now st u0 = None")
  case False
  then have "signedUrlCache st' = signedUrlCache st \<and> redis st' = redis st"
    using assms
    by (auto simp: getAuthenticatedUrl_def getSignedDownloadUrl_def resolvable_def memHit_def
        keyOf_def record_event_def Let_def split: option.splits if_splits)
  then show ?thesis using singleOutcome_cong[of st' st E now] by simp
next
  case True
  then have res0: "resolvable u0" and miss0: "memHit now st u0 = None" by simp_all
  let ?k = "keyOf u0"
  have a: "afterMemMiss E now (redis st) ?k (record_event (MemGet ?k) st) = (Inr r, st')"
    using assms True
    by (auto simp: getAuthenticatedUrl_def getSignedDownloadUrl_def resolvable_def memHit_def
        keyOf_def record_event_def Let_def)
  have out0: "missOutcome E now (redis st) ?k = Inr r"
    using a fst_afterMemMiss[of E now "redis st" ?k "record_event (MemGet ?k) st"] by simp
  obtain c where c: "fresh now c" "url c = r"
    "signedUrlCache st' = (signedUrlCache st)(?k \<mapsto> c)"
    "\<forall>k. k \<noteq> ?k \<longrightarrow> redis st' (redisKey k) = redis st (redisKey k)"
  proof (cases "redisValid now (redisRead (redis st) now (redisKey ?k))")
    case (Some c)
    then have "fresh now c" using redisValid_Some by blast
    moreover have "url c = r \<and> signedUrlCache st' = (signedUrlCache st)(?k \<mapsto> c) \<and> redis st' = redis st"
      using a Some
      by (auto simp: afterMemMiss_def Let_def record_event_def memSet_def split: if_splits)
    ultimately show ?thesis using that by simp
  next
    case None
    then obtain v where v: "getSignedUrl E ?k None SIGNED_URL_EXPIRY now = Some v"
      using a by (auto simp: afterMemMiss_def Let_def split: if_splits option.splits)
    let ?c = "\<lparr>url = v, expiresAt = now + SIGNED_URL_CACHE_DURATION\<rparr>"
    have "url ?c = r \<and> signedUrlCache st' = (signedUrlCache st)(?k \<mapsto> ?c) \<and>
          redis st' = (redis st)(redisKey ?k \<mapsto> (Obj ?c, ttlDeadline now))"
      using a None v
      by (auto simp: afterMemMiss_def Let_def record_event_def memSet_def redisWrite_def
          split: if_splits)
    then show ?thesis using that[of ?c] signed_entry_fresh[of now v] by simp
  qed
  show ?thesis
  proof (cases "resolvable u")
    case False
    then show ?thesis by (simp add: singleOutcome_def)
  next
    case True
    show ?thesis
    proof (cases "keyOf u = ?k")
      case True
      have "memHit now st' u = Some c"
        using c(1,3) True by (simp add: memHit_def memValid_def)
      moreover have "memHit now st u = None" using miss0 True by (simp add: memHit_def)
      ultimately show ?thesis
        using \<open>resolvable u\<close> out0 c(2) True by (simp add: singleOutcome_def)
    next
      case False
      have "memHit now st' u = memHit now st u" using c(3) False by (simp add: memHit_def)
      moreover have "missOutcome E now (redis st') (keyOf u) = missOutcome E now (redis st) (keyOf u)"
        using c(4) False by (intro missOutcome_store) (simp add: redisRead_def)
      ultimately show ?thesis by (simp add: singleOutcome_def split: option.splits)
    qed
  qed
qed

lemma sequential_fst:
  "fst (resolveSequentially E now us st) = promiseAll (map (singleOutcome E now st) us)"
proof (induction us arbitrary: st)
  case Nil
  show ?case by simp
next
  case (Cons u us)
  obtain o1 st1 where g: "getAuthenticatedUrl E now u st = (o1, st1)" by (cases "getAuthenticatedUrl E now u st")
  then have o: "singleOutcome E now st u = o1" using fst_single[of E now u st] by simp
  show ?case
  proof (cases o1)
    case (Inl e)
    then show ?thesis using g o by simp
  next
    case (Inr r)
    have "map (singleOutcome E now st1) us = map (singleOutcome E now st) us"
      using single_preserves_outcomes[of E now u st r st1] g Inr by simp
    then have "promiseAll (map (singleOutcome E now st1) us) = promiseAll (map (singleOutcome E now st) us)"
      by (rule arg_cong)
    then have "fst (resolveSequentially E now us st1) = promiseAll (map (singleOutcome E now st) us)"
      using Cons.IH[of st1] by simp
    then show ?thesis
      using g o Inr by (simp add: split_beta split: sum.splits)
  qed
qed

text \<open>
  When the \<open>try\<close> block of \<open>getAuthenticatedUrls\<close> raises, the call is the
  fallback run in the state the block left. What it returns is what resolving the
  references one after another returns; if the single-key resolution of any reference
  fails, the whole call fails, and a returned list holds the value of every single-key
  resolution.
\<close>

lemma fallback_value:
  assumes "fileUrls \<noteq> []" and "batchPath E now fileUrls s = (Inl e, s1)"
  shows "getAuthenticatedUrls E now fileUrls s = fallback E now fileUrls s1 \<and>
         fst (getAuthenticatedUrls E now fileUrls s) = fst (resolveSequentially E now fileUrls s1) \<and>
         ((\<exists>u \<in> set fileUrls. \<exists>e0. fst (getAuthenticatedUrl E now u s1) = Inl e0) \<longrightarrow>
            (\<exists>e'. fst (getAuthenticatedUrls E now fileUrls s) = Inl e')) \<and>
         (\<forall>rs. fst (getAuthenticatedUrls E now fileUrls s) = Inr rs \<longrightarrow>
            map (\<lambda>u. fst (getAuthenticatedUrl E now u s1)) fileUrls = map Inr rs)"
proof -
  have a: "getAuthenticatedUrls E now fileUrls s = fallback E now fileUrls s1"
    using assms by (simp add: getAuthenticatedUrls_def)
  have f: "fst (getAuthenticatedUrls E now fileUrls s) = promiseAll (map (singleOutcome E now s1) fileUrls)"
    by (simp add: a fallback_fst)
  have m: "map (\<lambda>u. fst (getAuthenticatedUrl E now u s1)) fileUrls = map (singleOutcome E now s1) fileUrls"
    by (simp add: fst_single)
  have b: "fst (getAuthenticatedUrls E now fileUrls s) = fst (resolveSequentially E now fileUrls s1)"
    by (simp add: f sequential_fst)
  have c: "\<exists>e'. fst (getAuthenticatedUrls E now fileUrls s) = Inl e'"
    if "\<exists>u \<in> set fileUrls. \<exists>e0. fst (getAuthenticatedUrl E now u s1) = Inl e0"
  proof -
    from that obtain u e0 where "u \<in> set fileUrls" "singleOutcome E now s1 u = Inl e0"
      by (auto simp: fst_single)
    then have "Inl e0 \<in> set (map (singleOutcome E now s1) fileUrls)" by force
    then show ?thesis unfolding f by (rule promiseAll_Inl)
  qed
  have d: "map (\<lambda>u. fst (getAuthenticatedUrl E now u s1)) fileUrls = map Inr rs"
    if "fst (getAuthenticatedUrls E now fileUrls s) = Inr rs" for rs
    using that promiseAll_Inr[of "map (singleOutcome E now s1) fileUrls" rs] by (simp only: f m)
  show ?thesis using a b c d by blast
qed

lemma demo_hits_env:
  "needsLookup 0 warmState ''r2://bucket/e.jpg''" "cold 0 warmState ''r2://bucket/e.jpg''"
  "list_ex (needsLookup 0 warmState) demoRefs"
  using demo_hit_facts by (simp_all add: needsLookup_def cold_def demoRefs_def)

lemma fallback_value_demo:
  "(\<exists>e'. fst (getAuthenticatedUrls failEnv 0 demoRefs warmState) = Inl e') \<and>
   fst (getAuthenticatedUrls rejectEnv 0 demoRefs warmState)
     = fst (resolveSequentially rejectEnv 0 demoRefs (snd (batchPath rejectEnv 0 demoRefs warmState)))"
proof -
  have ne: "demoRefs \<noteq> []" by (simp add: demoRefs_def)
  have rep: "replied failEnv" "\<not> mget_rejects failEnv" "replied rejectEnv" "mget_rejects rejectEnv"
    by (simp_all add: replied_def failEnv_def rejectEnv_def demoEnv_def const_defs)
  have pe: "presigned failEnv 0 ''r2://bucket/e.jpg'' = None"
    using demo_hit_facts by (simp add: presigned_def failEnv_def demoEnv_def)
  have nse: "needsSigning failEnv 0 warmState ''r2://bucket/e.jpg''"
    using demo_hits_env(2) by (rule cold_needsSigning)
  have ine: "''r2://bucket/e.jpg'' \<in> set demoRefs" by (simp add: demoRefs_def)
  have "list_ex (\<lambda>u. needsSigning failEnv 0 warmState u \<and> presigned failEnv 0 u = None) demoRefs"
    using pe nse ine by (auto simp: list_ex_iff)
  then have o1: "batchOutcome failEnv 0 warmState demoRefs = Inl SignerFailure"
    using rep by (simp add: batchOutcome_def)
  have b1: "batchPath failEnv 0 demoRefs warmState
      = (Inl SignerFailure, batchState failEnv 0 warmState demoRefs)"
    by (simp add: batchPath_closed o1)
  obtain e0 where "singleOutcome failEnv 0 (batchState failEnv 0 warmState demoRefs) ''r2://bucket/e.jpg'' = Inl e0"
    using fallback_fails_after_signer_failure[OF rep(1) nse pe] by blast
  then have s1: "\<exists>u \<in> set demoRefs. \<exists>e0.
      fst (getAuthenticatedUrl failEnv 0 u (batchState failEnv 0 warmState demoRefs)) = Inl e0"
    using ine by (auto simp: fst_single)
  have c1: "\<exists>e'. fst (getAuthenticatedUrls failEnv 0 demoRefs warmState) = Inl e'"
    using fallback_value[OF ne b1] s1 by blast
  have o2: "batchOutcome rejectEnv 0 warmState demoRefs = Inl RedisFailure"
    using rep demo_hits_env(3) by (simp add: batchOutcome_def)
  have b2: "batchPath rejectEnv 0 demoRefs warmState
      = (Inl RedisFailure, snd (batchPath rejectEnv 0 demoRefs warmState))"
    by (simp add: batchPath_closed o2)
  have c2: "fst (getAuthenticatedUrls rejectEnv 0 demoRefs warmState)
     = fst (resolveSequentially rejectEnv 0 demoRefs (snd (batchPath rejectEnv 0 demoRefs warmState)))"
    using fallback_value[OF ne b2] by blast
  show ?thesis using c1 c2 by (rule conjI)
qed

subsection \<open>The fallback is not sequential\<close>

lemma parse_d: "parseR2Url ''r2://bucket/d.jpg'' = Some ''d.jpg''"
  by (simp add: parseR2Url_def startsWith_def)

lemma resolvable_d: "resolvable ''r2://bucket/d.jpg''" "keyOf ''r2://bucket/d.jpg'' = ''d.jpg''"
  by (simp_all add: resolvable_def keyOf_def parse_d falsy_def)

lemma twice_try:
  "batchPath rejectEnv 0 twiceRefs emptyState =
     (Inl RedisFailure,
      \<lparr>signedUrlCache = Map.empty, redis = Map.empty,
       trace = [MemGet ''d.jpg'', MemGet ''d.jpg'',
                RedisMGet [''signed_url:d.jpg'', ''signed_url:d.jpg'']]\<rparr>)"
  by (simp add: batchPath_closed closed_defs resolvable_d demo_defs rejectEnv_def const_defs Let_def
      record_event_def twiceRefs_def)

lemma twice_first:
  "getAuthenticatedUrl rejectEnv 0 ''r2://bucket/d.jpg''
     \<lparr>signedUrlCache = Map.empty, redis = Map.empty, trace = tr\<rparr> =
     (Inr ''https://r2/d.jpg?X-Amz-Expires=3600'',
      \<lparr>signedUrlCache = [''d.jpg'' \<mapsto> \<lparr>url = ''https://r2/d.jpg?X-Amz-Expires=3600'', expiresAt = 3000000\<rparr>],
       redis = [''signed_url:d.jpg'' \<mapsto>
                  (Obj \<lparr>url = ''https://r2/d.jpg?X-Amz-Expires=3600'', expiresAt = 3000000\<rparr>, 3300000)],
       trace = tr @ [MemGet ''d.jpg'', RedisGet ''signed_url:d.jpg'', Sign ''d.jpg'' 3600,
                MemSet ''d.jpg'' \<lparr>url = ''https://r2/d.jpg?X-Amz-Expires=3600'', expiresAt = 3000000\<rparr>,
                RedisSet ''signed_url:d.jpg''
                  \<lparr>url = ''https://r2/d.jpg?X-Amz-Expires=3600'', expiresAt = 3000000\<rparr> 3300]\<rparr>)"
  by (simp add: single_defs parse_d falsy_def demo_defs rejectEnv_def redisRead_def redisKey_def
      ttlDeadline_def const_defs)

lemma twice_second:
  "getAuthenticatedUrl rejectEnv 0 ''r2://bucket/d.jpg''
     \<lparr>signedUrlCache = [''d.jpg'' \<mapsto> \<lparr>url = ''https://r2/d.jpg?X-Amz-Expires=3600'', expiresAt = 3000000\<rparr>],
      redis = st, trace = tr\<rparr> =
     (Inr ''https://r2/d.jpg?X-Amz-Expires=3600'',
      \<lparr>signedUrlCache = [''d.jpg'' \<mapsto> \<lparr>url = ''https://r2/d.jpg?X-Amz-Expires=3600'', expiresAt = 3000000\<rparr>],
       redis = st, trace = tr @ [MemGet ''d.jpg'']\<rparr>)"
  by (simp add: getAuthenticatedUrl_def getSignedDownloadUrl_def parse_d falsy_def record_event_def
      memValid_def fresh_def Let_def const_defs)

text \<open>
  C4. The \<open>catch\<close> block does not resolve the references one after another: it starts
  every \<open>getAuthenticatedUrl\<close> call before any of them has written the memory cache
  (\<open>Promise.all\<close> over \<open>map\<close>), although its comment says "Fallback to sequential".
  For a batch that names the cold reference \<open>d.jpg\<close> twice while the bulk read rejects,
  the \<open>try\<close> block raises and the fallback calls the presigner twice for the key;
  resolving the two references one after another from the state the block left returns
  the same list with one presigner call, the second resolution being served from the
  memory cache.
\<close>

theorem fallback_signs_repeated_key_twice:
  "fst (batchPath rejectEnv 0 twiceRefs emptyState) = Inl RedisFailure \<and>
   fst (getAuthenticatedUrls rejectEnv 0 twiceRefs emptyState)
     = Inr [''https://r2/d.jpg?X-Amz-Expires=3600'', ''https://r2/d.jpg?X-Amz-Expires=3600''] \<and>
   signKeys (trace (snd (getAuthenticatedUrls rejectEnv 0 twiceRefs emptyState)))
     = [''d.jpg'', ''d.jpg''] \<and>
   fst (resolveSequentially rejectEnv 0 twiceRefs (snd (batchPath rejectEnv 0 twiceRefs emptyState)))
     = Inr [''https://r2/d.jpg?X-Amz-Expires=3600'', ''https://r2/d.jpg?X-Amz-Expires=3600''] \<and>
   signKeys (trace (snd (resolveSequentially rejectEnv 0 twiceRefs
                           (snd (batchPath rejectEnv 0 twiceRefs emptyState)))))
     = [''d.jpg'']"
proof -
  define s1 where "s1 = \<lparr>signedUrlCache = Map.empty, redis = Map.empty,
       trace = [MemGet ''d.jpg'', MemGet ''d.jpg'',
                RedisMGet [''signed_url:d.jpg'', ''signed_url:d.jpg'']]\<rparr>"
  have tb: "batchPath rejectEnv 0 twiceRefs emptyState = (Inl RedisFailure, s1)"
    unfolding s1_def by (rule twice_try)
  have ne: "twiceRefs \<noteq> []" by (simp add: twiceRefs_def)
  have fb: "getAuthenticatedUrls rejectEnv 0 twiceRefs emptyState = fallback rejectEnv 0 twiceRefs s1"
    using ne by (simp add: getAuthenticatedUrls_def tb)
  have cold1: "cold 0 s1 ''r2://bucket/d.jpg''"
    by (simp add: s1_def cold_def resolvable_d memHit_def storeHit_def memValid_def redisValid_def
        redisRead_def)
  have g: "\<not> get_rejects rejectEnv (redisKey ''d.jpg'')" by (simp add: rejectEnv_def demoEnv_def)
  have out: "singleOutcome rejectEnv 0 s1 ''r2://bucket/d.jpg'' = Inr ''https://r2/d.jpg?X-Amz-Expires=3600''"
    by (simp add: s1_def singleOutcome_def missOutcome_def resolvable_d memHit_def memValid_def
        redisValid_def redisRead_def rejectEnv_def demoEnv_def)
  have a: "fst (getAuthenticatedUrls rejectEnv 0 twiceRefs emptyState)
     = Inr [''https://r2/d.jpg?X-Amz-Expires=3600'', ''https://r2/d.jpg?X-Amz-Expires=3600'']"
    unfolding fb fallback_fst by (simp add: twiceRefs_def out)
  have t1: "signKeys (trace s1) = []" by (simp add: s1_def)
  have b: "signKeys (trace (snd (getAuthenticatedUrls rejectEnv 0 twiceRefs emptyState)))
     = [''d.jpg'', ''d.jpg'']"
    unfolding fb sk_fallback t1 using cold1 g by (simp add: twiceRefs_def resolvable_d)
  have sq: "resolveSequentially rejectEnv 0 twiceRefs s1
      = (Inr [''https://r2/d.jpg?X-Amz-Expires=3600'', ''https://r2/d.jpg?X-Amz-Expires=3600''],
         \<lparr>signedUrlCache = [''d.jpg'' \<mapsto> \<lparr>url = ''https://r2/d.jpg?X-Amz-Expires=3600'', expiresAt = 3000000\<rparr>],
          redis = [''signed_url:d.jpg'' \<mapsto>
                  (Obj \<lparr>url = ''https://r2/d.jpg?X-Amz-Expires=3600'', expiresAt = 3000000\<rparr>, 3300000)],
          trace = ([MemGet ''d.jpg'', MemGet ''d.jpg'',
                   RedisMGet [''signed_url:d.jpg'', ''signed_url:d.jpg'']] @
                  [MemGet ''d.jpg'', RedisGet ''signed_url:d.jpg'', Sign ''d.jpg'' 3600,
                   MemSet ''d.jpg'' \<lparr>url = ''https://r2/d.jpg?X-Amz-Expires=3600'', expiresAt = 3000000\<rparr>,
                   RedisSet ''signed_url:d.jpg''
                     \<lparr>url = ''https://r2/d.jpg?X-Amz-Expires=3600'', expiresAt = 3000000\<rparr> 3300]) @
                  [MemGet ''d.jpg'']\<rparr>)"
    unfolding s1_def twiceRefs_def
    by (simp only: resolveSequentially.simps twice_first twice_second prod.case sum.case)
  have c: "fst (resolveSequentially rejectEnv 0 twiceRefs s1)
     = Inr [''https://r2/d.jpg?X-Amz-Expires=3600'', ''https://r2/d.jpg?X-Amz-Expires=3600'']"
    by (simp only: sq fst_conv)
  have d: "signKeys (trace (snd (resolveSequentially rejectEnv 0 twiceRefs s1))) = [''d.jpg'']"
    unfolding sq by simp
  show ?thesis
    unfolding tb fst_conv snd_conv using a b c d by (simp only: simp_thms)
qed

lemma single_a_warm:
  "getAuthenticatedUrl demoEnv 0 ''r2://bucket/a.jpg'' warmState
     = (Inr ''https://r2/a.jpg?old'', record_event (MemGet ''a.jpg'') warmState)"
  by (simp add: getAuthenticatedUrl_def getSignedDownloadUrl_def parse_a falsy_def Let_def
      record_event_def warmState_def memValid_def fresh_def const_defs)

theorem batch_agrees_with_single_witness:
  "\<exists>qs t'. getAuthenticatedUrls demoEnv 0 demoRefs warmState = (Inr qs, t') \<and>
      length qs = 5 \<and> qs ! 0 = ''https://r2/a.jpg?old'' \<and>
      fst (getAuthenticatedUrl demoEnv 0 (demoRefs ! 3) warmState) = Inr (qs ! 3)"
proof -
  have h1: "replied demoEnv" by (simp add: replied_def demoEnv_def const_defs)
  have h2: "\<not> mget_rejects demoEnv \<and>
          (\<forall>u \<in> set demoRefs.
             (needsLookup 0 warmState u \<longrightarrow> \<not> get_rejects demoEnv (redisKey (keyOf u))) \<and>
             (cold 0 warmState u \<longrightarrow> presigned demoEnv 0 u \<noteq> None \<and>
                \<not> set_rejects demoEnv (redisKey (keyOf u))))"
    by (simp add: demo_signer) (simp add: demoEnv_def)
  have l: "length demoRefs = 5" "(0::nat) < 5" "(3::nat) < 5" "demoRefs ! 0 = ''r2://bucket/a.jpg''"
    by (simp_all add: demoRefs_def)
  note T = batch_agrees_with_single[OF h1, of 0 demoRefs warmState]
  from T h2 obtain qs t' where q: "getAuthenticatedUrls demoEnv 0 demoRefs warmState = (Inr qs, t')"
    "length qs = length demoRefs"
    "\<forall>i < length demoRefs. fst (getAuthenticatedUrl demoEnv 0 (demoRefs ! i) warmState) = Inr (qs ! i)"
    by blast
  from batch_agrees_with_single[OF h1, of 0 demoRefs warmState qs t'] q(1)
  have "\<forall>i < length demoRefs. \<forall>r t. getAuthenticatedUrl demoEnv 0 (demoRefs ! i) warmState = (Inr r, t)
            \<longrightarrow> qs ! i = r"
    by blast
  then have "qs ! 0 = ''https://r2/a.jpg?old''"
    using single_a_warm l by (metis (no_types, lifting))
  moreover have "fst (getAuthenticatedUrl demoEnv 0 (demoRefs ! 3) warmState) = Inr (qs ! 3)"
    using q(3) l by simp
  ultimately show ?thesis using q(1,2) l by auto
qed

text \<open>
  Without the bulk read completing in time the two resolvers differ. From the same state
  at the same instant, with the bulk read taking 3000 ms, the batch resolver signs
  \<open>b.jpg\<close> afresh while the single-key resolver returns the URL that Redis holds.
\<close>

theorem timed_out_batch_differs_from_single:
  "fst (getAuthenticatedUrls slowEnv 0 [''r2://bucket/b.jpg''] warmState)
     = Inr [''https://r2/b.jpg?X-Amz-Expires=3600''] \<and>
   fst (getAuthenticatedUrl slowEnv 0 ''r2://bucket/b.jpg'' warmState) = Inr ''https://r2/b.jpg?old''"
proof (intro conjI)
  show "fst (getAuthenticatedUrls slowEnv 0 [''r2://bucket/b.jpg''] warmState)
     = Inr [''https://r2/b.jpg?X-Amz-Expires=3600'']"
    by (simp add: batch_fst closed_defs resolvable_b demo_defs slowEnv_def const_defs Let_def)
  show "fst (getAuthenticatedUrl slowEnv 0 ''r2://bucket/b.jpg'' warmState) = Inr ''https://r2/b.jpg?old''"
    by (simp add: fst_single closed_defs resolvable_b demo_defs slowEnv_def const_defs fresh_def)
qed

section \<open>Validity margin\<close>

lemma resolve_at_one_instant:
  "getAuthenticatedUrlAt E now now fileUrl s = getAuthenticatedUrl E now fileUrl s"
  unfolding getAuthenticatedUrlAt_def getAuthenticatedUrl_def getSignedDownloadUrlAt_def
    getSignedDownloadUrl_def afterMemMissAt_def afterMemMiss_def
  by (rule refl)

lemma lagged_resolve_demo:
  "getAuthenticatedUrlAt demoEnv 0 40 ''r2://bucket/a.jpg'' emptyState =
     (Inr ''https://r2/a.jpg?X-Amz-Expires=3600'',
      \<lparr>signedUrlCache = [''a.jpg'' \<mapsto> \<lparr>url = ''https://r2/a.jpg?X-Amz-Expires=3600'', expiresAt = 3000040\<rparr>],
       redis = [''signed_url:a.jpg'' \<mapsto>
                  (Obj \<lparr>url = ''https://r2/a.jpg?X-Amz-Expires=3600'', expiresAt = 3000040\<rparr>, 3300040)],
       trace = [MemGet ''a.jpg'', RedisGet ''signed_url:a.jpg'', Sign ''a.jpg'' 3600,
                MemSet ''a.jpg'' \<lparr>url = ''https://r2/a.jpg?X-Amz-Expires=3600'', expiresAt = 3000040\<rparr>,
                RedisSet ''signed_url:a.jpg''
                  \<lparr>url = ''https://r2/a.jpg?X-Amz-Expires=3600'', expiresAt = 3000040\<rparr> 3300]\<rparr>)"
  by (simp add: getAuthenticatedUrlAt_def getSignedDownloadUrlAt_def afterMemMissAt_def
      memSet_def record_event_def redisWrite_def memValid_def redisValid_def Let_def
      parse_a falsy_def demo_defs redisRead_def redisKey_def ttlDeadline_def const_defs)

lemma lagged_second_demo:
  "getAuthenticatedUrl demoEnv 2700039 ''r2://bucket/a.jpg''
     \<lparr>signedUrlCache = [''a.jpg'' \<mapsto> \<lparr>url = ''https://r2/a.jpg?X-Amz-Expires=3600'', expiresAt = 3000040\<rparr>],
      redis = st, trace = tr\<rparr> =
     (Inr ''https://r2/a.jpg?X-Amz-Expires=3600'',
      \<lparr>signedUrlCache = [''a.jpg'' \<mapsto> \<lparr>url = ''https://r2/a.jpg?X-Amz-Expires=3600'', expiresAt = 3000040\<rparr>],
       redis = st, trace = tr @ [MemGet ''a.jpg'']\<rparr>)"
  by (simp add: getAuthenticatedUrl_def getSignedDownloadUrl_def parse_a falsy_def record_event_def
      memValid_def fresh_def Let_def const_defs)

lemma batch_a_demo:
  "signedUrlCache (snd (getAuthenticatedUrls demoEnv 0 [''r2://bucket/a.jpg''] emptyState)) ''a.jpg''
     = Some \<lparr>url = ''https://r2/a.jpg?X-Amz-Expires=3600'', expiresAt = 3000000\<rparr>"
  by (simp add: batch_snd closed_defs resolvable_a demo_defs const_defs Let_def signEffect_def
      memSet_def record_event_def pipelineExec_def redisWrite_def backfill_def)

text \<open>
  C10. The single-key resolver computes \<open>expiresAt\<close> from the clock read that follows
  \<open>await getSignedUrl(...)\<close>, so the recorded expiry lies less than ten minutes before
  the end of the URL's validity, by the time the presigner call took. A reference resolved
  at instant 0 with a presigner call of 40 ms gets an entry that expires at
  \<open>40 + SIGNED_URL_CACHE_DURATION\<close>, while its URL, signed at 0, lapses at
  \<open>validUntil 0\<close>: 9 minutes 59.96 seconds later. A second resolution at 2700039 passes
  the expiry check and returns the URL from the memory cache with less than 15 minutes of
  validity left. The batch resolver reads the clock before it signs: the same reference
  resolved by it at instant 0 gets \<open>expiresAt = SIGNED_URL_CACHE_DURATION\<close>.
\<close>

theorem recorded_expiry_counts_from_after_signing:
  "fst (getAuthenticatedUrlAt demoEnv 0 40 ''r2://bucket/a.jpg'' emptyState)
     = Inr ''https://r2/a.jpg?X-Amz-Expires=3600'' \<and>
   signedUrlCache (snd (getAuthenticatedUrlAt demoEnv 0 40 ''r2://bucket/a.jpg'' emptyState)) ''a.jpg''
     = Some \<lparr>url = ''https://r2/a.jpg?X-Amz-Expires=3600'', expiresAt = 3000040\<rparr> \<and>
   validUntil 0 - 3000040 < 10 * 60 * 1000 \<and>
   fst (getAuthenticatedUrl demoEnv 2700039 ''r2://bucket/a.jpg''
          (snd (getAuthenticatedUrlAt demoEnv 0 40 ''r2://bucket/a.jpg'' emptyState)))
     = Inr ''https://r2/a.jpg?X-Amz-Expires=3600'' \<and>
   validUntil 0 - 2700039 < 15 * 60 * 1000 \<and>
   signedUrlCache (snd (getAuthenticatedUrls demoEnv 0 [''r2://bucket/a.jpg''] emptyState)) ''a.jpg''
     = Some \<lparr>url = ''https://r2/a.jpg?X-Amz-Expires=3600'', expiresAt = 3000000\<rparr>"
proof (intro conjI)
  show "fst (getAuthenticatedUrlAt demoEnv 0 40 ''r2://bucket/a.jpg'' emptyState)
     = Inr ''https://r2/a.jpg?X-Amz-Expires=3600''"
    by (simp only: lagged_resolve_demo fst_conv)
  show "signedUrlCache (snd (getAuthenticatedUrlAt demoEnv 0 40 ''r2://bucket/a.jpg'' emptyState)) ''a.jpg''
     = Some \<lparr>url = ''https://r2/a.jpg?X-Amz-Expires=3600'', expiresAt = 3000040\<rparr>"
    unfolding lagged_resolve_demo by simp
  show "validUntil 0 - 3000040 < 10 * 60 * 1000" by (simp add: validUntil_def const_defs)
  show "fst (getAuthenticatedUrl demoEnv 2700039 ''r2://bucket/a.jpg''
          (snd (getAuthenticatedUrlAt demoEnv 0 40 ''r2://bucket/a.jpg'' emptyState)))
     = Inr ''https://r2/a.jpg?X-Amz-Expires=3600''"
    by (simp only: lagged_resolve_demo snd_conv lagged_second_demo fst_conv)
  show "validUntil 0 - 2700039 < 15 * 60 * 1000" by (simp add: validUntil_def const_defs)
  show "signedUrlCache (snd (getAuthenticatedUrls demoEnv 0 [''r2://bucket/a.jpg''] emptyState)) ''a.jpg''
     = Some \<lparr>url = ''https://r2/a.jpg?X-Amz-Expires=3600'', expiresAt = 3000000\<rparr>"
    by (rule batch_a_demo)
qed

end
